theory Spec2Isabelle
  imports Main "HOL-Library.Word"
begin

section \<open>Configuration and types (IPCHandler.h)\<close>

text \<open>
  \<^verbatim>\<open>#define IPC_MAX_DATA_LENGTH 512\<close>, \<^verbatim>\<open>#define IPC_MSG_QUEUE_LENGTH 16\<close> and
  \<^verbatim>\<open>#define IPC_HANDLER_CNT_MAX E_IPC_TASK_ID_LAST\<close> with
  \<^verbatim>\<open>E_IPC_TASK_ID_LAST = UINT8_MAX\<close>.
\<close>

abbreviation (input) IPC_MAX_DATA_LENGTH :: int where
  "IPC_MAX_DATA_LENGTH \<equiv> 512"

abbreviation (input) IPC_MSG_QUEUE_LENGTH :: nat where
  "IPC_MSG_QUEUE_LENGTH \<equiv> 16"

abbreviation (input) IPC_HANDLER_CNT_MAX :: nat where
  "IPC_HANDLER_CNT_MAX \<equiv> 255"

datatype IPC_eMsgType_t = E_IPC_MSG_TYPE_1 | E_IPC_MSG_TYPE_2

text \<open>
  Task identifiers are the values of a C enumeration that the application extends
  (\<^verbatim>\<open>E_IPC_TASK_ID_1 = 1\<close>, \<^verbatim>\<open>E_IPC_TASK_ID_2 = 2\<close>, ...); the handler only compares
  them for equality. A task handle is an opaque pointer; \<^verbatim>\<open>NULL\<close> is address 0.
\<close>

type_synonym IPC_eTaskID_t = int

abbreviation (input) E_IPC_TASK_ID_1 :: IPC_eTaskID_t where
  "E_IPC_TASK_ID_1 \<equiv> 1"

abbreviation (input) E_IPC_TASK_ID_2 :: IPC_eTaskID_t where
  "E_IPC_TASK_ID_2 \<equiv> 2"

type_synonym TaskHandle_t = nat

abbreviation (input) NULL :: TaskHandle_t where
  "NULL \<equiv> 0"

record IPC_sMsg_t =
  eIPC_MsgType :: IPC_eMsgType_t
  u8Data :: "8 word list"
  u32DataLen :: "32 word"

datatype IPC_eError_t =
    E_IPC_SUCCESS
  | E_IPC_ERR_EXISTS
  | E_IPC_ERR_CREATE_FAIL
  | E_IPC_ERR_NO_HANDLER
  | E_IPC_ERR_SEND_FAIL
  | E_IPC_ERR_RECV_FAIL
  | E_IPC_RECV_MORE

section \<open>Module state (IPCHandler.c)\<close>

record IPC_sMsgQueue_t =
  msgQueue :: "IPC_sMsg_t list"
  queueTail :: "8 word"
  queueHead :: "8 word"
  queueSize :: "8 word"

record IPC_sHandler_t =
  recvId :: IPC_eTaskID_t
  handle :: TaskHandle_t
  queue :: IPC_sMsgQueue_t

text \<open>The two static variables of the module.\<close>

record ipc_state =
  IPC_arHandler :: "IPC_sHandler_t list"
  IPC_u8HandlerCnt :: "8 word"

text \<open>
  C leaves an access outside an array undefined. The model stops with a fault where the
  source can index outside an object: the handler table in \<^verbatim>\<open>IPC_send\<close>, a queue slot
  selected by an 8-bit index, and the caller's data buffer.
\<close>

datatype fault =
    Handler_Index_Out_Of_Bounds
  | Queue_Index_Out_Of_Bounds
  | Data_Read_Out_Of_Bounds

section \<open>Operations\<close>

text \<open>
  \<^verbatim>\<open>for (int i = 0; i < IPC_u8HandlerCnt; i++) if (IPC_arHandler[i].recvId == taskID) return i;\<close>
  followed by \<^verbatim>\<open>return -1\<close>.
\<close>

function getHandlerIdx_loop :: "ipc_state \<Rightarrow> IPC_eTaskID_t \<Rightarrow> nat \<Rightarrow> int" where
  "getHandlerIdx_loop s taskID i =
     (if i < unat (IPC_u8HandlerCnt s) then
        (if recvId (IPC_arHandler s ! i) = taskID then int i
         else getHandlerIdx_loop s taskID (Suc i))
      else -1)"
  by pat_completeness auto
termination
  by (relation "measure (\<lambda>(s, taskID, i). unat (IPC_u8HandlerCnt s) - i)") auto

declare getHandlerIdx_loop.simps [simp del]

definition IPC_getHandlerIdx :: "ipc_state \<Rightarrow> IPC_eTaskID_t \<Rightarrow> int" where
  "IPC_getHandlerIdx s taskID =
     (if IPC_u8HandlerCnt s > 0 then getHandlerIdx_loop s taskID 0 else -1)"

definition IPC_initIPCHandler :: "ipc_state \<Rightarrow> ipc_state" where
  "IPC_initIPCHandler s = s\<lparr>IPC_u8HandlerCnt := 0\<rparr>"

definition IPC_createHandler ::
  "ipc_state \<Rightarrow> IPC_eTaskID_t \<Rightarrow> TaskHandle_t \<Rightarrow> IPC_eError_t \<times> ipc_state" where
  "IPC_createHandler s aTaskID aHandle =
     (if aHandle = NULL then (E_IPC_ERR_CREATE_FAIL, s)
      else if unat (IPC_u8HandlerCnt s) = IPC_HANDLER_CNT_MAX then (E_IPC_ERR_CREATE_FAIL, s)
      else if IPC_getHandlerIdx s aTaskID \<noteq> -1 then (E_IPC_ERR_EXISTS, s)
      else
        let n = unat (IPC_u8HandlerCnt s);
            psHandler = IPC_arHandler s ! n;
            h = psHandler\<lparr>recvId := aTaskID, handle := aHandle,
                  queue := (queue psHandler)\<lparr>queueSize := 0, queueTail := 0, queueHead := 0\<rparr>\<rparr>
        in (E_IPC_SUCCESS,
            s\<lparr>IPC_arHandler := (IPC_arHandler s)[n := h],
              IPC_u8HandlerCnt := IPC_u8HandlerCnt s + 1\<rparr>))"

text \<open>
  \<^verbatim>\<open>for (int i = 0; i < aDataSize; i++) u8Data[i] = apData[i];\<close> The destination is a
  512-byte array and \<^verbatim>\<open>aDataSize < 512\<close> here; the source buffer is the caller's, of any
  length.
\<close>

function copy_data :: "nat \<Rightarrow> int \<Rightarrow> 8 word list \<Rightarrow> 8 word list \<Rightarrow> fault + 8 word list" where
  "copy_data i aDataSize apData dst =
     (if int i < aDataSize then
        (if i < length apData
         then copy_data (Suc i) aDataSize apData (dst[i := apData ! i])
         else Inl Data_Read_Out_Of_Bounds)
      else Inr dst)"
  by pat_completeness auto
termination
  by (relation "measure (\<lambda>(i, aDataSize, apData, dst). nat (aDataSize - int i))") auto

declare copy_data.simps [simp del]

text \<open>
  The first argument is the outcome of FreeRTOS's \<^verbatim>\<open>xTaskNotifyGive\<close> on a task handle
  (\<^verbatim>\<open>pdPASS\<close> is \<open>True\<close>); FreeRTOS is not part of the module. The handler index is held
  in a \<^verbatim>\<open>uint8_t\<close> and then compared with \<^verbatim>\<open>-1\<close> after integer promotion.
\<close>

definition IPC_send ::
  "(TaskHandle_t \<Rightarrow> bool) \<Rightarrow> ipc_state \<Rightarrow> IPC_eTaskID_t \<Rightarrow> IPC_eMsgType_t \<Rightarrow> 8 word list \<Rightarrow> int
     \<Rightarrow> fault + (IPC_eError_t \<times> ipc_state)" where
  "IPC_send xTaskNotifyGive s aRecv aType apData aDataSize =
     (if aDataSize \<ge> IPC_MAX_DATA_LENGTH then Inr (E_IPC_ERR_SEND_FAIL, s)
      else
        let handlerIdx = (word_of_int (IPC_getHandlerIdx s aRecv) :: 8 word) in
        if uint handlerIdx = -1 then Inr (E_IPC_ERR_NO_HANDLER, s)
        else if \<not> unat handlerIdx < IPC_HANDLER_CNT_MAX then Inl Handler_Index_Out_Of_Bounds
        else
          let h = IPC_arHandler s ! unat handlerIdx;
              q = queue h;
              idx = queueTail q
          in
          if \<not> unat idx < IPC_MSG_QUEUE_LENGTH then Inl Queue_Index_Out_Of_Bounds
          else
            (case copy_data 0 aDataSize apData (u8Data (msgQueue q ! unat idx)) of
               Inl f \<Rightarrow> Inl f
             | Inr d \<Rightarrow>
                 let m = (msgQueue q ! unat idx)
                           \<lparr>eIPC_MsgType := aType, u8Data := d,
                            u32DataLen := word_of_int aDataSize\<rparr>;
                     q' = q\<lparr>msgQueue := (msgQueue q)[unat idx := m],
                            queueTail := (if queueTail q = 15 then 0 else queueTail q + 1),
                            queueSize := queueSize q + 1\<rparr>;
                     s' = s\<lparr>IPC_arHandler := (IPC_arHandler s)[unat handlerIdx := h\<lparr>queue := q'\<rparr>]\<rparr>
                 in
                 if xTaskNotifyGive (handle h) then Inr (E_IPC_SUCCESS, s')
                 else Inr (E_IPC_ERR_SEND_FAIL, s')))"

text \<open>
  The last argument is the content of the caller's buffer \<^verbatim>\<open>*apBuf\<close> before the call; the
  result carries its content afterwards. \<^verbatim>\<open>memcpy\<close> copies the whole slot.
\<close>

definition IPC_receive ::
  "ipc_state \<Rightarrow> IPC_eTaskID_t \<Rightarrow> IPC_sMsg_t \<Rightarrow> fault + (IPC_eError_t \<times> ipc_state \<times> IPC_sMsg_t)" where
  "IPC_receive s aRecv apBuf =
     (let handlerIdx = IPC_getHandlerIdx s aRecv in
      if handlerIdx = -1 then Inr (E_IPC_ERR_NO_HANDLER, s, apBuf)
      else
        let h = IPC_arHandler s ! nat handlerIdx;
            q = queue h
        in
        if queueSize q = 0 then Inr (E_IPC_ERR_RECV_FAIL, s, apBuf)
        else if \<not> unat (queueHead q) < IPC_MSG_QUEUE_LENGTH then Inl Queue_Index_Out_Of_Bounds
        else
          let buf = msgQueue q ! unat (queueHead q);
              q' = q\<lparr>queueSize := queueSize q - 1,
                     queueHead := (if queueHead q = 15 then 0 else queueHead q + 1)\<rparr>;
              s' = s\<lparr>IPC_arHandler := (IPC_arHandler s)[nat handlerIdx := h\<lparr>queue := q'\<rparr>]\<rparr>
          in
          if queueSize q' > 0 then Inr (E_IPC_RECV_MORE, s', buf)
          else Inr (E_IPC_SUCCESS, s', buf))"

section \<open>Static storage at program start\<close>

text \<open>
  \<^verbatim>\<open>IPC_arHandler\<close> and \<^verbatim>\<open>IPC_u8HandlerCnt\<close> are static, hence zero-initialised: every
  byte of every slot is 0, and enumerator 0 of \<^verbatim>\<open>IPC_eMsgType_t\<close> is
  \<^verbatim>\<open>E_IPC_MSG_TYPE_1\<close>. \<^verbatim>\<open>main\<close> calls \<^verbatim>\<open>IPC_initIPCHandler\<close> before anything else.
\<close>

definition zero_msg :: IPC_sMsg_t where
  "zero_msg = \<lparr>eIPC_MsgType = E_IPC_MSG_TYPE_1, u8Data = replicate 512 0, u32DataLen = 0\<rparr>"

definition zero_queue :: IPC_sMsgQueue_t where
  "zero_queue = \<lparr>msgQueue = replicate IPC_MSG_QUEUE_LENGTH zero_msg,
                  queueTail = 0, queueHead = 0, queueSize = 0\<rparr>"

definition zero_handler :: IPC_sHandler_t where
  "zero_handler = \<lparr>recvId = 0, handle = NULL, queue = zero_queue\<rparr>"

definition boot_state :: ipc_state where
  "boot_state = IPC_initIPCHandler
     \<lparr>IPC_arHandler = replicate IPC_HANDLER_CNT_MAX zero_handler, IPC_u8HandlerCnt = 0\<rparr>"

text \<open>The state after the tasks with identifiers \<open>1, ..., n\<close> have registered, in that order.\<close>

fun register_upto :: "nat \<Rightarrow> ipc_state" where
  "register_upto 0 = boot_state"
| "register_upto (Suc n) = snd (IPC_createHandler (register_upto n) (int (Suc n)) (Suc 0))"

declare register_upto.simps [simp del]

text \<open>The two possible behaviours of the notification primitive.\<close>

definition wake_passes :: "TaskHandle_t \<Rightarrow> bool" where
  "wake_passes h = True"

definition wake_fails :: "TaskHandle_t \<Rightarrow> bool" where
  "wake_fails h = False"

section \<open>Well-formed states\<close>

text \<open>
  The array sizes are fixed by the C types. Head and tail of every registered inbox index
  a slot, and the tail is \<open>size\<close> slots ahead of the head around the ring.
\<close>

definition queue_shape :: "IPC_sMsgQueue_t \<Rightarrow> bool" where
  "queue_shape q =
     (length (msgQueue q) = IPC_MSG_QUEUE_LENGTH \<and>
      (\<forall>m \<in> set (msgQueue q). int (length (u8Data m)) = IPC_MAX_DATA_LENGTH))"

definition queue_inv :: "IPC_sMsgQueue_t \<Rightarrow> bool" where
  "queue_inv q =
     (unat (queueHead q) < IPC_MSG_QUEUE_LENGTH \<and>
      unat (queueTail q) < IPC_MSG_QUEUE_LENGTH \<and>
      unat (queueTail q) = (unat (queueHead q) + unat (queueSize q)) mod IPC_MSG_QUEUE_LENGTH)"

definition ipc_inv :: "ipc_state \<Rightarrow> bool" where
  "ipc_inv s =
     (length (IPC_arHandler s) = IPC_HANDLER_CNT_MAX \<and>
      (\<forall>h \<in> set (IPC_arHandler s). queue_shape (queue h)) \<and>
      (\<forall>h \<in> set (take (unat (IPC_u8HandlerCnt s)) (IPC_arHandler s)). queue_inv (queue h)))"

section \<open>Observations on one inbox\<close>

definition registered :: "ipc_state \<Rightarrow> IPC_eTaskID_t \<Rightarrow> bool" where
  "registered s r = (IPC_getHandlerIdx s r \<noteq> -1)"

text \<open>The queue of the inbox that the lookup finds for \<open>r\<close>.\<close>

definition inbox :: "ipc_state \<Rightarrow> IPC_eTaskID_t \<Rightarrow> IPC_sMsgQueue_t" where
  "inbox s r = queue (IPC_arHandler s ! nat (IPC_getHandlerIdx s r))"

text \<open>The task handle that \<^verbatim>\<open>IPC_send\<close> notifies for \<open>r\<close>.\<close>

definition wake_handle :: "ipc_state \<Rightarrow> IPC_eTaskID_t \<Rightarrow> TaskHandle_t" where
  "wake_handle s r = handle (IPC_arHandler s ! nat (IPC_getHandlerIdx s r))"

definition count_of :: "ipc_state \<Rightarrow> IPC_eTaskID_t \<Rightarrow> nat" where
  "count_of s r = unat (queueSize (inbox s r))"

text \<open>The slots from the head onwards, as many as the count says, around the ring.\<close>

definition pending :: "IPC_sMsgQueue_t \<Rightarrow> IPC_sMsg_t list" where
  "pending q =
     map (\<lambda>k. msgQueue q ! ((unat (queueHead q) + k) mod IPC_MSG_QUEUE_LENGTH))
       [0 ..< unat (queueSize q)]"

text \<open>A received buffer carries a sent message: kind, length and the payload bytes.\<close>

definition carries :: "IPC_sMsg_t \<Rightarrow> IPC_eMsgType_t \<Rightarrow> 8 word list \<Rightarrow> int \<Rightarrow> bool" where
  "carries m aType apData aDataSize =
     (eIPC_MsgType m = aType \<and> u32DataLen m = word_of_int aDataSize \<and>
      take (nat aDataSize) (u8Data m) = take (nat aDataSize) apData)"

section \<open>Sequences of calls on one inbox\<close>

datatype ipc_call =
    Send "TaskHandle_t \<Rightarrow> bool" IPC_eMsgType_t "8 word list" int
  | Receive

type_synonym ipc_outcome = "IPC_eError_t \<times> ipc_state \<times> IPC_sMsg_t"

fun call_on :: "IPC_eTaskID_t \<Rightarrow> ipc_call \<Rightarrow> ipc_state \<Rightarrow> IPC_sMsg_t \<Rightarrow> fault + ipc_outcome" where
  "call_on r (Send notify aType apData aDataSize) s buf =
     (case IPC_send notify s r aType apData aDataSize of
        Inl f \<Rightarrow> Inl f
      | Inr (e, s') \<Rightarrow> Inr (e, s', buf))"
| "call_on r Receive s buf = IPC_receive s r buf"

text \<open>
  The calls run one after the other on the state and on the receiver's buffer; the result
  lists, for every call, its return value and the state and buffer it leaves.
\<close>

fun run :: "IPC_eTaskID_t \<Rightarrow> ipc_call list \<Rightarrow> ipc_state \<Rightarrow> IPC_sMsg_t \<Rightarrow> fault + ipc_outcome list" where
  "run r [] s buf = Inr []"
| "run r (c # cs) s buf =
     (case call_on r c s buf of
        Inl f \<Rightarrow> Inl f
      | Inr (e, s', buf') \<Rightarrow>
          (case run r cs s' buf' of
             Inl f \<Rightarrow> Inl f
           | Inr tr \<Rightarrow> Inr ((e, s', buf') # tr)))"

definition returned :: "ipc_outcome list \<Rightarrow> IPC_eError_t list" where
  "returned tr = map fst tr"

definition buffers :: "ipc_outcome list \<Rightarrow> IPC_sMsg_t list" where
  "buffers tr = map (\<lambda>(e, s, buf). buf) tr"

definition counts :: "IPC_eTaskID_t \<Rightarrow> ipc_state \<Rightarrow> ipc_outcome list \<Rightarrow> nat list" where
  "counts r s tr = count_of s r # map (\<lambda>(e, s', buf). count_of s' r) tr"

definition final_state :: "ipc_state \<Rightarrow> ipc_outcome list \<Rightarrow> ipc_state" where
  "final_state s tr = (if tr = [] then s else fst (snd (last tr)))"

text \<open>
  What a call does to the count: a send that gets past the size check stores its message
  (it returns \<^verbatim>\<open>E_IPC_SUCCESS\<close>, or \<^verbatim>\<open>E_IPC_ERR_SEND_FAIL\<close> when only the notification
  failed); a receive takes one out when it returns \<^verbatim>\<open>E_IPC_SUCCESS\<close> or
  \<^verbatim>\<open>E_IPC_RECV_MORE\<close>.
\<close>

fun stores :: "ipc_call \<Rightarrow> bool" where
  "stores (Send notify aType apData aDataSize) = (aDataSize < IPC_MAX_DATA_LENGTH)"
| "stores Receive = False"

fun takes :: "ipc_call \<Rightarrow> IPC_eError_t \<Rightarrow> bool" where
  "takes Receive e = (e = E_IPC_SUCCESS \<or> e = E_IPC_RECV_MORE)"
| "takes (Send notify aType apData aDataSize) e = False"

fun delta :: "ipc_call \<Rightarrow> IPC_eError_t \<Rightarrow> int" where
  "delta c e = (if stores c then 1 else if takes c e then -1 else 0)"

text \<open>
  The number of sends in a sequence that store a message, and the number of receives that
  take one out, given the values the calls returned.
\<close>

definition sends_stored :: "ipc_call list \<Rightarrow> nat" where
  "sends_stored cs = length (filter stores cs)"

definition receives_done :: "ipc_call list \<Rightarrow> IPC_eError_t list \<Rightarrow> nat" where
  "receives_done cs es = length (filter (\<lambda>(c, e). takes c e) (zip cs es))"

text \<open>The caller's buffer of a send holds the bytes that the send is told to copy.\<close>

fun readable :: "ipc_call \<Rightarrow> bool" where
  "readable (Send notify aType apData aDataSize) =
     (aDataSize < IPC_MAX_DATA_LENGTH \<longrightarrow> nat aDataSize \<le> length apData)"
| "readable Receive = True"

text \<open>
  No send is issued while the inbox holds 16 messages: \<open>c\<close> is the number of messages in
  the inbox before the first call.
\<close>

fun never_overfilled :: "nat \<Rightarrow> ipc_call list \<Rightarrow> bool" where
  "never_overfilled c [] = True"
| "never_overfilled c (Receive # cs) = never_overfilled (c - 1) cs"
| "never_overfilled c (Send notify aType apData aDataSize # cs) =
     (if aDataSize < IPC_MAX_DATA_LENGTH
      then c < IPC_MSG_QUEUE_LENGTH \<and> never_overfilled (Suc c) cs
      else never_overfilled c cs)"

section \<open>Closed forms of the state updates\<close>

text \<open>The slot content after \<^verbatim>\<open>IPC_send\<close> has written kind, length and payload into it.\<close>

definition stored :: "IPC_sMsg_t \<Rightarrow> IPC_eMsgType_t \<Rightarrow> 8 word list \<Rightarrow> int \<Rightarrow> IPC_sMsg_t" where
  "stored old aType apData aDataSize =
     old\<lparr>eIPC_MsgType := aType,
         u8Data := take (nat aDataSize) apData @ drop (nat aDataSize) (u8Data old),
         u32DataLen := word_of_int aDataSize\<rparr>"

definition enqueued :: "IPC_sMsgQueue_t \<Rightarrow> IPC_eMsgType_t \<Rightarrow> 8 word list \<Rightarrow> int \<Rightarrow> IPC_sMsgQueue_t" where
  "enqueued q aType apData aDataSize =
     q\<lparr>msgQueue := (msgQueue q)[unat (queueTail q) :=
                      stored (msgQueue q ! unat (queueTail q)) aType apData aDataSize],
       queueTail := (if queueTail q = 15 then 0 else queueTail q + 1),
       queueSize := queueSize q + 1\<rparr>"

definition dequeued :: "IPC_sMsgQueue_t \<Rightarrow> IPC_sMsgQueue_t" where
  "dequeued q =
     q\<lparr>queueSize := queueSize q - 1,
       queueHead := (if queueHead q = 15 then 0 else queueHead q + 1)\<rparr>"

definition put_queue :: "ipc_state \<Rightarrow> nat \<Rightarrow> IPC_sMsgQueue_t \<Rightarrow> ipc_state" where
  "put_queue s i q = s\<lparr>IPC_arHandler := (IPC_arHandler s)[i := (IPC_arHandler s ! i)\<lparr>queue := q\<rparr>]\<rparr>"

section \<open>The demonstration of main.c\<close>

text \<open>The state that a send leaves (the state it started from if it stops with a fault).\<close>

definition after_send ::
  "(TaskHandle_t \<Rightarrow> bool) \<Rightarrow> ipc_state \<Rightarrow> IPC_eTaskID_t \<Rightarrow> IPC_eMsgType_t \<Rightarrow> 8 word list \<Rightarrow> int
     \<Rightarrow> ipc_state" where
  "after_send notify s aRecv aType apData aDataSize =
     (case IPC_send notify s aRecv aType apData aDataSize of
        Inr (e, s') \<Rightarrow> s'
      | Inl f \<Rightarrow> s)"

text \<open>
  \<^verbatim>\<open>demo_task2\<close> sends the C string \<^verbatim>\<open>"Hello world!"\<close> with its terminating zero, 13
  bytes, to task 1, again and again. \<open>hello_times k\<close> is the state after task 1 has
  registered and that send has run \<open>k\<close> times, each with a notification that passes, while
  task 1 has not received anything; \<open>hello_state\<close> is the state after the first of them.
\<close>

definition hello :: "8 word list" where
  "hello = [72, 101, 108, 108, 111, 32, 119, 111, 114, 108, 100, 33, 0]"

fun hello_times :: "nat \<Rightarrow> ipc_state" where
  "hello_times 0 = register_upto 1"
| "hello_times (Suc k) =
     after_send wake_passes (hello_times k) E_IPC_TASK_ID_1 E_IPC_MSG_TYPE_1 hello 13"

declare hello_times.simps [simp del]

definition hello_state :: ipc_state where
  "hello_state = hello_times 1"

text \<open>Two further one-byte messages, \<^verbatim>\<open>"A"\<close> and \<^verbatim>\<open>"B"\<close>, sent after the first greeting.\<close>

definition hello_A_state :: ipc_state where
  "hello_A_state = after_send wake_passes hello_state E_IPC_TASK_ID_1 E_IPC_MSG_TYPE_2 [65] 1"

definition hello_A_B_state :: ipc_state where
  "hello_A_B_state = after_send wake_passes hello_A_state E_IPC_TASK_ID_1 E_IPC_MSG_TYPE_2 [66] 1"

section \<open>The lookup, the copy loop and the two queue operations\<close>

lemma getHandlerIdx_loop_cases:
  "getHandlerIdx_loop s t i = -1 \<or>
   (\<exists>k. getHandlerIdx_loop s t i = int k \<and> i \<le> k \<and> k < unat (IPC_u8HandlerCnt s) \<and> recvId (IPC_arHandler s ! k) = t)"
proof (induction s t i rule: getHandlerIdx_loop.induct)
  case (1 s taskID i)
  show ?case
  proof (cases "i < unat (IPC_u8HandlerCnt s)")
    case False
    then show ?thesis by (simp add: getHandlerIdx_loop.simps)
  next
    case True
    show ?thesis
    proof (cases "recvId (IPC_arHandler s ! i) = taskID")
      case eq: True
      with True show ?thesis by (subst getHandlerIdx_loop.simps) auto
    next
      case neq: False
      from 1 [OF True neq] True neq show ?thesis
        by (subst (1 2) getHandlerIdx_loop.simps) (auto simp: Suc_le_eq)
    qed
  qed
qed

lemma IPC_getHandlerIdx_cases:
  "IPC_getHandlerIdx s t = -1 \<or>
   (\<exists>k. IPC_getHandlerIdx s t = int k \<and> k < unat (IPC_u8HandlerCnt s) \<and> recvId (IPC_arHandler s ! k) = t)"
  using getHandlerIdx_loop_cases [of s t 0] by (auto simp: IPC_getHandlerIdx_def)

lemma cnt_le: "unat (c :: 8 word) \<le> 255"
  using unsigned_less [of c, where ?'a = nat] by simp

lemma copy_data_eq:
  "i \<le> nat n \<Longrightarrow> nat n \<le> length src \<Longrightarrow> nat n \<le> length dst \<Longrightarrow>
   copy_data i n src dst = Inr (take i dst @ take (nat n - i) (drop i src) @ drop (nat n) dst)"
proof (induction i n src dst rule: copy_data.induct)
  case (1 i n src dst)
  show ?case
  proof (cases "int i < n")
    case False
    with 1(2) have "i = nat n" by simp
    with False show ?thesis by (subst copy_data.simps) simp
  next
    case True
    then have lt: "i < nat n" by simp
    with 1(3) have il: "i < length src" by simp
    have step: "copy_data i n src dst = copy_data (Suc i) n src (dst[i := src ! i])"
      using True il by (subst copy_data.simps) simp
    have ih: "copy_data (Suc i) n src (dst[i := src ! i]) =
        Inr (take (Suc i) (dst[i := src ! i]) @ take (nat n - Suc i) (drop (Suc i) src) @ drop (nat n) (dst[i := src ! i]))"
      using 1(1) [OF True il] lt 1(3,4) by simp
    have a: "take (Suc i) (dst[i := src ! i]) = take i dst @ [src ! i]"
      using lt 1(4) by (simp add: take_Suc_conv_app_nth)
    have b: "drop (nat n) (dst[i := src ! i]) = drop (nat n) dst"
      using lt by simp
    have c: "take (nat n - i) (drop i src) = src ! i # take (nat n - Suc i) (drop (Suc i) src)"
      using lt il by (metis Cons_nth_drop_Suc Suc_diff_Suc take_Suc_Cons)
    show ?thesis unfolding step ih a b c by simp
  qed
qed

lemma copy_data_short:
  "int i < n \<Longrightarrow> length src < nat n \<Longrightarrow> copy_data i n src dst = Inl Data_Read_Out_Of_Bounds"
proof (induction i n src dst rule: copy_data.induct)
  case (1 i n src dst)
  show ?case
  proof (cases "i < length src")
    case False
    with 1(2) show ?thesis by (subst copy_data.simps) simp
  next
    case True
    with 1(3) have "int (Suc i) < n" by linarith
    from 1(1) [OF 1(2) True this 1(3)] 1(2) True show ?thesis
      by (subst copy_data.simps) simp
  qed
qed


lemma getHandlerIdx_loop_frame:
  "IPC_u8HandlerCnt s' = IPC_u8HandlerCnt s \<Longrightarrow>
   (\<forall>k < unat (IPC_u8HandlerCnt s). recvId (IPC_arHandler s' ! k) = recvId (IPC_arHandler s ! k)) \<Longrightarrow>
   getHandlerIdx_loop s' t i = getHandlerIdx_loop s t i"
proof (induction s t i rule: getHandlerIdx_loop.induct)
  case (1 s taskID i)
  show ?case
  proof (cases "i < unat (IPC_u8HandlerCnt s)")
    case False
    with 1(2) show ?thesis by (subst (1 2) getHandlerIdx_loop.simps) simp
  next
    case True
    then have same: "recvId (IPC_arHandler s' ! i) = recvId (IPC_arHandler s ! i)"
      using 1(3) by blast
    show ?thesis
    proof (cases "recvId (IPC_arHandler s ! i) = taskID")
      case eq: True
      with True same 1(2) show ?thesis by (subst (1 2) getHandlerIdx_loop.simps) simp
    next
      case neq: False
      from 1(1) [OF True neq 1(2) 1(3)] True neq same 1(2) show ?thesis
        by (subst (1 2) getHandlerIdx_loop.simps) simp
    qed
  qed
qed

lemma getHandlerIdx_put_queue [simp]:
  "IPC_getHandlerIdx (put_queue s i q) t = IPC_getHandlerIdx s t"
proof -
  have ids: "recvId (IPC_arHandler (put_queue s i q) ! k) = recvId (IPC_arHandler s ! k)" for k
    by (cases "i < length (IPC_arHandler s)") (simp_all add: put_queue_def nth_list_update list_update_beyond)
  have cnt: "IPC_u8HandlerCnt (put_queue s i q) = IPC_u8HandlerCnt s"
    by (simp add: put_queue_def)
  have "getHandlerIdx_loop (put_queue s i q) t 0 = getHandlerIdx_loop s t 0"
    by (rule getHandlerIdx_loop_frame) (simp_all only: cnt ids, simp)
  then show ?thesis
    by (simp add: IPC_getHandlerIdx_def cnt)
qed

lemma lookup_bound:
  assumes "IPC_getHandlerIdx s r = int i"
  shows "i < unat (IPC_u8HandlerCnt s)" and "i < 255" and "recvId (IPC_arHandler s ! i) = r"
proof -
  from IPC_getHandlerIdx_cases [of s r] assms
  show a: "i < unat (IPC_u8HandlerCnt s)" and "recvId (IPC_arHandler s ! i) = r" by auto
  from a cnt_le [of "IPC_u8HandlerCnt s"] show "i < 255" by simp
qed

lemma registered_idx:
  "registered s r \<Longrightarrow> IPC_getHandlerIdx s r = int (nat (IPC_getHandlerIdx s r))"
  using IPC_getHandlerIdx_cases [of s r] by (auto simp: registered_def)

lemma not_registered_iff: "(\<not> registered s r) = (IPC_getHandlerIdx s r = -1)"
  by (simp add: registered_def)

lemma idx_word:
  assumes "i < 255"
  shows "unat (word_of_int (int i) :: 8 word) = i"
  using assms by (simp add: unat_of_nat)

lemma IPC_receive_closed:
  assumes idx: "IPC_getHandlerIdx s r = int i"
    and ne: "queueSize (queue (IPC_arHandler s ! i)) \<noteq> 0"
    and head: "unat (queueHead (queue (IPC_arHandler s ! i))) < 16"
  shows "IPC_receive s r buf =
    Inr (if queueSize (queue (IPC_arHandler s ! i)) - 1 > 0 then E_IPC_RECV_MORE else E_IPC_SUCCESS,
         put_queue s i (dequeued (queue (IPC_arHandler s ! i))),
         msgQueue (queue (IPC_arHandler s ! i)) ! unat (queueHead (queue (IPC_arHandler s ! i))))"
  unfolding IPC_receive_def idx Let_def
  using ne head by (simp add: put_queue_def dequeued_def)

lemma IPC_send_closed:
  assumes idx: "IPC_getHandlerIdx s r = int i"
    and tail: "unat (queueTail (queue (IPC_arHandler s ! i))) < 16"
    and n: "n < 512" and d: "nat n \<le> length d"
    and len: "nat n \<le> length (u8Data (msgQueue (queue (IPC_arHandler s ! i)) ! unat (queueTail (queue (IPC_arHandler s ! i)))))"
  shows "IPC_send ntf s r t d n =
    Inr (if ntf (handle (IPC_arHandler s ! i)) then E_IPC_SUCCESS else E_IPC_ERR_SEND_FAIL,
         put_queue s i (enqueued (queue (IPC_arHandler s ! i)) t d n))"
proof -
  have i: "i < 255" using lookup_bound(2) [OF idx] .
  have w: "unat (word_of_int (int i) :: 8 word) = i" using idx_word [OF i] .
  have u: "uint (word_of_int (int i) :: 8 word) \<noteq> -1"
    using uint_ge_0 [of "word_of_int (int i) :: 8 word"] by linarith
  have c: "copy_data 0 n d (u8Data (msgQueue (queue (IPC_arHandler s ! i)) ! unat (queueTail (queue (IPC_arHandler s ! i)))))
      = Inr (take (nat n) d @ drop (nat n) (u8Data (msgQueue (queue (IPC_arHandler s ! i)) ! unat (queueTail (queue (IPC_arHandler s ! i))))))"
    using copy_data_eq [of 0 n d, OF _ d len] by simp
  show ?thesis
    unfolding IPC_send_def idx Let_def
    using n i tail u
    by (simp only: w c) (simp add: put_queue_def enqueued_def stored_def)
qed

lemma word8_succ_mod:
  fixes z :: "8 word"
  shows "(a + unat (z + 1)) mod 16 = (a + unat z + 1) mod 16"
proof -
  have u: "unat (z + 1) = (unat z + 1) mod 256"
    by (simp add: unat_word_ariths)
  have "((unat z + 1) mod 256) mod 16 = (unat z + 1) mod 16"
    by (rule mod_mod_cancel) simp
  then have "(a + (unat z + 1) mod 256) mod 16 = (a + (unat z + 1)) mod 16"
    by (metis mod_add_right_eq)
  with u show ?thesis by (simp add: add.assoc)
qed

lemma unat_15:
  fixes x :: "8 word"
  assumes "unat x = 15"
  shows "x = 15"
proof -
  have "word_of_nat (unat x) = (word_of_nat 15 :: 8 word)" using assms by simp
  then show ?thesis by simp
qed

lemma advance_index:
  fixes x :: "8 word"
  assumes "unat x < 16"
  shows "unat (if x = 15 then 0 else x + 1) = (unat x + 1) mod 16"
proof (cases "x = 15")
  case True
  then show ?thesis by simp
next
  case False
  then have "unat x \<noteq> 15" using unat_15 by blast
  with assms have lt: "unat x < 15" by simp
  then have "unat (x + 1) = unat x + 1" by (simp add: unat_word_ariths)
  with False lt show ?thesis by simp
qed


lemma ring_distinct:
  fixes h j k :: nat
  assumes "j < k" "k < 16"
  shows "(h + j) mod 16 \<noteq> (h + k) mod 16"
proof
  assume eq: "(h + j) mod 16 = (h + k) mod 16"
  have "h + j \<le> h + k" using assms by simp
  from mod_eq_dvd_iff_nat [OF this, of 16] eq have "16 dvd (h + k) - (h + j)" by simp
  then have "16 dvd k - j" by simp
  then have "16 \<le> k - j" using assms by (intro dvd_imp_le) simp_all
  with assms show False by simp
qed

lemma queue_shape_enqueued:
  assumes sh: "queue_shape q" and n: "n < 512" and d: "nat n \<le> length d"
  shows "queue_shape (enqueued q t d n)"
proof -
  let ?old = "msgQueue q ! unat (queueTail q)"
  have len: "length (msgQueue (enqueued q t d n)) = 16"
    using sh by (simp add: queue_shape_def enqueued_def)
  have slot: "int (length (u8Data (stored ?old t d n))) = 512"
    if "int (length (u8Data ?old)) = 512"
    using that n d by (simp add: stored_def min_def)
  have "int (length (u8Data m)) = 512" if m: "m \<in> set (msgQueue (enqueued q t d n))" for m
  proof (cases "unat (queueTail q) < length (msgQueue q)")
    case False
    then have "msgQueue (enqueued q t d n) = msgQueue q"
      by (simp add: enqueued_def list_update_beyond)
    with m sh show ?thesis by (simp add: queue_shape_def)
  next
    case True
    then have old: "int (length (u8Data ?old)) = 512"
      using sh by (simp add: queue_shape_def)
    from m have "m \<in> insert (stored ?old t d n) (set (msgQueue q))"
      using set_update_subset_insert [of "msgQueue q" "unat (queueTail q)" "stored ?old t d n"]
      by (auto simp: enqueued_def)
    then show ?thesis using slot [OF old] sh by (auto simp: queue_shape_def)
  qed
  with len show ?thesis by (simp add: queue_shape_def)
qed

lemma queue_shape_dequeued: "queue_shape q \<Longrightarrow> queue_shape (dequeued q)"
  by (simp add: queue_shape_def dequeued_def)

lemma queue_inv_enqueued:
  assumes "queue_inv q"
  shows "queue_inv (enqueued q t d n)"
proof -
  from assms have h: "unat (queueHead q) < 16" and tl: "unat (queueTail q) < 16"
    and rel: "unat (queueTail q) = (unat (queueHead q) + unat (queueSize q)) mod 16"
    by (simp_all add: queue_inv_def)
  have t': "unat (queueTail (enqueued q t d n)) = (unat (queueTail q) + 1) mod 16"
    using advance_index [OF tl] by (simp add: enqueued_def)
  have "(unat (queueHead q) + unat (queueSize q + 1)) mod 16
      = (unat (queueHead q) + unat (queueSize q) + 1) mod 16"
    by (rule word8_succ_mod)
  also have "\<dots> = ((unat (queueHead q) + unat (queueSize q)) mod 16 + 1) mod 16"
    by (simp add: mod_Suc_eq)
  finally have "(unat (queueHead q) + unat (queueSize q + 1)) mod 16 = (unat (queueTail q) + 1) mod 16"
    using rel by simp
  with t' h show ?thesis
    by (simp add: queue_inv_def enqueued_def)
qed

lemma queue_inv_dequeued:
  assumes "queue_inv q" and ne: "queueSize q \<noteq> 0"
  shows "queue_inv (dequeued q)"
proof -
  from assms have h: "unat (queueHead q) < 16" and tl: "unat (queueTail q) < 16"
    and rel: "unat (queueTail q) = (unat (queueHead q) + unat (queueSize q)) mod 16"
    by (simp_all add: queue_inv_def)
  have h': "unat (queueHead (dequeued q)) = (unat (queueHead q) + 1) mod 16"
    using advance_index [OF h] by (simp add: dequeued_def)
  have pos: "0 < unat (queueSize q)" using ne by (simp add: unat_gt_0)
  have sz: "unat (queueSize q - 1) = unat (queueSize q) - 1"
    using ne by (rule unat_minus_one)
  have "((unat (queueHead q) + 1) mod 16 + (unat (queueSize q) - 1)) mod 16
      = (unat (queueHead q) + 1 + (unat (queueSize q) - 1)) mod 16"
    by (rule mod_add_left_eq)
  also have "\<dots> = (unat (queueHead q) + unat (queueSize q)) mod 16"
    using pos by simp
  finally show ?thesis
    using h' sz rel tl by (simp add: queue_inv_def dequeued_def)
qed

lemma pending_enqueued:
  assumes inv: "queue_inv q" and len: "length (msgQueue q) = 16" and room: "unat (queueSize q) < 16"
  shows "pending (enqueued q t d n) = pending q @ [stored (msgQueue q ! unat (queueTail q)) t d n]"
proof -
  let ?h = "unat (queueHead q)" and ?k = "unat (queueSize q)"
  let ?m = "stored (msgQueue q ! unat (queueTail q)) t d n"
  from inv have tl: "unat (queueTail q) < 16"
    and rel: "unat (queueTail q) = (?h + ?k) mod 16"
    by (simp_all add: queue_inv_def)
  have sz: "unat (queueSize q + 1) = Suc ?k"
    using room by (simp add: unat_word_ariths)
  have old: "(msgQueue q)[unat (queueTail q) := ?m] ! ((?h + j) mod 16) = msgQueue q ! ((?h + j) mod 16)"
    if "j < ?k" for j
    using ring_distinct [OF that room, of ?h] rel by simp
  have new: "(msgQueue q)[unat (queueTail q) := ?m] ! ((?h + ?k) mod 16) = ?m"
    using rel tl len by simp
  have "pending (enqueued q t d n) =
      map (\<lambda>j. (msgQueue q)[unat (queueTail q) := ?m] ! ((?h + j) mod 16)) [0 ..< Suc ?k]"
    by (simp add: pending_def enqueued_def sz)
  also have "\<dots> = map (\<lambda>j. (msgQueue q)[unat (queueTail q) := ?m] ! ((?h + j) mod 16)) [0 ..< ?k] @ [?m]"
    using new by simp
  also have "map (\<lambda>j. (msgQueue q)[unat (queueTail q) := ?m] ! ((?h + j) mod 16)) [0 ..< ?k] = pending q"
    unfolding pending_def by (rule map_cong) (simp_all add: old)
  finally show ?thesis .
qed

lemma pending_dequeued:
  assumes inv: "queue_inv q" and ne: "queueSize q \<noteq> 0"
  shows "pending q = msgQueue q ! unat (queueHead q) # pending (dequeued q)"
proof -
  let ?h = "unat (queueHead q)" and ?k = "unat (queueSize q)"
  from inv have h: "?h < 16" by (simp add: queue_inv_def)
  have h': "unat (queueHead (dequeued q)) = (?h + 1) mod 16"
    using advance_index [OF h] by (simp add: dequeued_def)
  have pos: "0 < ?k" using ne by (simp add: unat_gt_0)
  have sz: "unat (queueSize (dequeued q)) = ?k - 1"
    using unat_minus_one [OF ne] by (simp add: dequeued_def)
  have shift: "((?h + 1) mod 16 + j) mod 16 = (?h + Suc j) mod 16" for j
    by (simp add: mod_add_left_eq)
  have "[0 ..< ?k] = 0 # [Suc 0 ..< Suc (?k - 1)]"
    using pos by (simp add: upt_conv_Cons)
  then have idx: "[0 ..< ?k] = 0 # map Suc [0 ..< ?k - 1]"
    by (simp only: map_Suc_upt)
  have "pending q = map (\<lambda>j. msgQueue q ! ((?h + j) mod 16)) (0 # map Suc [0 ..< ?k - 1])"
    unfolding pending_def by (simp only: idx)
  also have "\<dots> = msgQueue q ! ?h # map (\<lambda>j. msgQueue q ! ((?h + Suc j) mod 16)) [0 ..< ?k - 1]"
    using h by (simp add: comp_def)
  also have "map (\<lambda>j. msgQueue q ! ((?h + Suc j) mod 16)) [0 ..< ?k - 1] = pending (dequeued q)"
    unfolding pending_def h' sz shift by (simp add: dequeued_def)
  finally show ?thesis .
qed

lemma IPC_send_too_large:
  "512 \<le> n \<Longrightarrow> IPC_send ntf s r t d n = Inr (E_IPC_ERR_SEND_FAIL, s)"
  by (simp add: IPC_send_def)

lemma IPC_send_unregistered:
  assumes "n < 512" and "IPC_getHandlerIdx s r = -1"
  shows "IPC_send ntf s r t d n = Inl Handler_Index_Out_Of_Bounds"
proof -
  have m: "(word_of_int (-1) :: 8 word) = 255" by simp
  have "uint (255 :: 8 word) = 255" and "unat (255 :: 8 word) = 255" by simp_all
  then show ?thesis
    using assms unfolding IPC_send_def Let_def by (simp only: m) simp
qed

lemma IPC_send_short:
  assumes idx: "IPC_getHandlerIdx s r = int i"
    and tail: "unat (queueTail (queue (IPC_arHandler s ! i))) < 16"
    and n: "n < 512" and d: "length d < nat n"
  shows "IPC_send ntf s r t d n = Inl Data_Read_Out_Of_Bounds"
proof -
  have i: "i < 255" using lookup_bound(2) [OF idx] .
  have w: "unat (word_of_int (int i) :: 8 word) = i" using idx_word [OF i] .
  have u: "uint (word_of_int (int i) :: 8 word) \<noteq> -1"
    using uint_ge_0 [of "word_of_int (int i) :: 8 word"] by linarith
  have pos: "int 0 < n" using d by simp
  have c: "copy_data 0 n d dst = Inl Data_Read_Out_Of_Bounds" for dst
    using copy_data_short [OF pos d] .
  show ?thesis
    unfolding IPC_send_def idx Let_def
    using n i tail u by (simp only: w c) simp
qed

lemma registered_slot:
  assumes inv: "ipc_inv s" and idx: "IPC_getHandlerIdx s r = int i"
  shows "queue_shape (queue (IPC_arHandler s ! i))" and "queue_inv (queue (IPC_arHandler s ! i))"
proof -
  have c: "i < unat (IPC_u8HandlerCnt s)" and l: "i < 255"
    using lookup_bound [OF idx] by simp_all
  from inv l have "IPC_arHandler s ! i \<in> set (IPC_arHandler s)"
    by (simp add: ipc_inv_def)
  with inv show "queue_shape (queue (IPC_arHandler s ! i))"
    by (simp add: ipc_inv_def)
  from inv l c have "take (unat (IPC_u8HandlerCnt s)) (IPC_arHandler s) ! i = IPC_arHandler s ! i"
    and "i < length (take (unat (IPC_u8HandlerCnt s)) (IPC_arHandler s))"
    by (simp_all add: ipc_inv_def)
  then have "IPC_arHandler s ! i \<in> set (take (unat (IPC_u8HandlerCnt s)) (IPC_arHandler s))"
    by (metis nth_mem)
  with inv show "queue_inv (queue (IPC_arHandler s ! i))"
    by (simp add: ipc_inv_def)
qed

lemma IPC_send_ok:
  assumes inv: "ipc_inv s" and idx: "IPC_getHandlerIdx s r = int i"
    and n: "n < 512" and d: "nat n \<le> length d"
  shows "IPC_send ntf s r t d n =
    Inr (if ntf (handle (IPC_arHandler s ! i)) then E_IPC_SUCCESS else E_IPC_ERR_SEND_FAIL,
         put_queue s i (enqueued (queue (IPC_arHandler s ! i)) t d n))"
proof -
  let ?q = "queue (IPC_arHandler s ! i)"
  from registered_slot [OF inv idx] have sh: "queue_shape ?q" and qi: "queue_inv ?q" .
  from qi have tl: "unat (queueTail ?q) < 16" by (simp add: queue_inv_def)
  with sh have "msgQueue ?q ! unat (queueTail ?q) \<in> set (msgQueue ?q)"
    by (simp add: queue_shape_def)
  with sh have "int (length (u8Data (msgQueue ?q ! unat (queueTail ?q)))) = 512"
    by (simp add: queue_shape_def)
  with n have "nat n \<le> length (u8Data (msgQueue ?q ! unat (queueTail ?q)))" by linarith
  from IPC_send_closed [OF idx tl n d this] show ?thesis .
qed

lemma IPC_receive_ok:
  assumes inv: "ipc_inv s" and idx: "IPC_getHandlerIdx s r = int i"
    and ne: "queueSize (queue (IPC_arHandler s ! i)) \<noteq> 0"
  shows "IPC_receive s r buf =
    Inr (if queueSize (queue (IPC_arHandler s ! i)) - 1 > 0 then E_IPC_RECV_MORE else E_IPC_SUCCESS,
         put_queue s i (dequeued (queue (IPC_arHandler s ! i))),
         msgQueue (queue (IPC_arHandler s ! i)) ! unat (queueHead (queue (IPC_arHandler s ! i))))"
proof -
  from registered_slot(2) [OF inv idx]
  have "unat (queueHead (queue (IPC_arHandler s ! i))) < 16" by (simp add: queue_inv_def)
  from IPC_receive_closed [OF idx ne this] show ?thesis .
qed

lemma IPC_receive_unregistered:
  "IPC_getHandlerIdx s r = -1 \<Longrightarrow> IPC_receive s r buf = Inr (E_IPC_ERR_NO_HANDLER, s, buf)"
  by (simp add: IPC_receive_def)

lemma IPC_receive_empty:
  assumes "IPC_getHandlerIdx s r = int i" and "queueSize (queue (IPC_arHandler s ! i)) = 0"
  shows "IPC_receive s r buf = Inr (E_IPC_ERR_RECV_FAIL, s, buf)"
  using assms by (simp add: IPC_receive_def)

lemma ipc_inv_put_queue:
  assumes inv: "ipc_inv s" and sh: "queue_shape q" and qi: "queue_inv q"
  shows "ipc_inv (put_queue s i q)"
proof -
  let ?xs = "IPC_arHandler s" and ?h = "(IPC_arHandler s ! i)\<lparr>queue := q\<rparr>"
  let ?c = "unat (IPC_u8HandlerCnt s)"
  have a: "set (?xs[i := ?h]) \<subseteq> insert ?h (set ?xs)"
    by (rule set_update_subset_insert)
  have "take ?c (?xs[i := ?h]) = (take ?c ?xs)[i := ?h]"
    by (rule take_update_swap)
  then have b: "set (take ?c (?xs[i := ?h])) \<subseteq> insert ?h (set (take ?c ?xs))"
    by (simp add: set_update_subset_insert)
  have "\<forall>h \<in> set (?xs[i := ?h]). queue_shape (queue h)"
    using a inv sh by (auto simp: ipc_inv_def)
  moreover have "\<forall>h \<in> set (take ?c (?xs[i := ?h])). queue_inv (queue h)"
    using b inv qi by (auto simp: ipc_inv_def)
  ultimately show ?thesis
    using inv by (simp add: ipc_inv_def put_queue_def)
qed

lemma inbox_put_queue:
  assumes "IPC_getHandlerIdx s r = int i" and "i < length (IPC_arHandler s)"
  shows "inbox (put_queue s i q) r = q"
  using assms by (simp add: inbox_def) (simp add: put_queue_def)

lemma inbox_idx: "IPC_getHandlerIdx s r = int i \<Longrightarrow> inbox s r = queue (IPC_arHandler s ! i)"
  by (simp add: inbox_def)

lemma lookup_none:
  assumes "\<forall>k < unat (IPC_u8HandlerCnt s). recvId (IPC_arHandler s ! k) \<noteq> t"
  shows "IPC_getHandlerIdx s t = -1"
  using IPC_getHandlerIdx_cases [of s t] assms by auto

lemma lookup_loop_first:
  assumes "i \<le> k" and "k < unat (IPC_u8HandlerCnt s)" and "recvId (IPC_arHandler s ! k) = t"
    and "\<forall>j. i \<le> j \<and> j < k \<longrightarrow> recvId (IPC_arHandler s ! j) \<noteq> t"
  shows "getHandlerIdx_loop s t i = int k"
  using assms
proof (induction s t i rule: getHandlerIdx_loop.induct)
  case (1 s taskID i)
  from 1(2,3) have lt: "i < unat (IPC_u8HandlerCnt s)" by simp
  show ?case
  proof (cases "i = k")
    case True
    with lt 1(4) show ?thesis by (subst getHandlerIdx_loop.simps) simp
  next
    case False
    with 1(2) have ik: "i < k" by simp
    with 1(5) have neq: "recvId (IPC_arHandler s ! i) \<noteq> taskID" by simp
    from ik have "Suc i \<le> k" by simp
    moreover from 1(5) have "\<forall>j. Suc i \<le> j \<and> j < k \<longrightarrow> recvId (IPC_arHandler s ! j) \<noteq> taskID"
      by simp
    ultimately have "getHandlerIdx_loop s taskID (Suc i) = int k"
      using 1(1) [OF lt neq] 1(3,4) by blast
    with lt neq show ?thesis by (subst getHandlerIdx_loop.simps) simp
  qed
qed

lemma lookup_first:
  assumes "k < unat (IPC_u8HandlerCnt s)" and "recvId (IPC_arHandler s ! k) = t"
    and "\<forall>j < k. recvId (IPC_arHandler s ! j) \<noteq> t"
  shows "IPC_getHandlerIdx s t = int k"
proof -
  from assms(1) have "0 < unat (IPC_u8HandlerCnt s)" by simp
  then have "0 < IPC_u8HandlerCnt s" by (simp add: word_less_nat_alt)
  moreover have "getHandlerIdx_loop s t 0 = int k"
    using assms by (intro lookup_loop_first) simp_all
  ultimately show ?thesis by (simp add: IPC_getHandlerIdx_def)
qed

lemma queue_shape_zero: "queue_shape zero_queue"
  by (simp add: queue_shape_def zero_queue_def zero_msg_def)

lemma queue_inv_zero: "queue_inv zero_queue"
  by (simp add: queue_inv_def zero_queue_def)

text \<open>
  The invariant holds when the program starts, and \<^verbatim>\<open>IPC_initIPCHandler\<close>,
  \<^verbatim>\<open>IPC_createHandler\<close>, \<^verbatim>\<open>IPC_send\<close> and \<^verbatim>\<open>IPC_receive\<close> keep it: it holds in every state
  the module can reach.
\<close>

lemma ipc_inv_boot: "ipc_inv boot_state"
  by (simp add: ipc_inv_def boot_state_def IPC_initIPCHandler_def zero_handler_def queue_shape_zero)

lemma ipc_inv_init: "ipc_inv s \<Longrightarrow> ipc_inv (IPC_initIPCHandler s)"
  by (simp add: ipc_inv_def IPC_initIPCHandler_def)

lemma IPC_createHandler_ok:
  assumes "h \<noteq> 0" and "unat (IPC_u8HandlerCnt s) \<noteq> 255" and "IPC_getHandlerIdx s t = -1"
  shows "IPC_createHandler s t h =
    (E_IPC_SUCCESS,
     s\<lparr>IPC_arHandler := (IPC_arHandler s)[unat (IPC_u8HandlerCnt s) :=
          (IPC_arHandler s ! unat (IPC_u8HandlerCnt s))
          \<lparr>recvId := t, handle := h,
           queue := (queue (IPC_arHandler s ! unat (IPC_u8HandlerCnt s)))
                     \<lparr>queueSize := 0, queueTail := 0, queueHead := 0\<rparr>\<rparr>],
       IPC_u8HandlerCnt := IPC_u8HandlerCnt s + 1\<rparr>)"
  using assms by (simp add: IPC_createHandler_def Let_def)

lemma cnt_succ:
  fixes c :: "8 word"
  assumes "unat c \<noteq> 255"
  shows "unat (c + 1) = Suc (unat c)"
proof -
  from assms cnt_le [of c] have "unat c < 255" by simp
  then show ?thesis by (simp add: unat_word_ariths)
qed

lemma ipc_inv_createHandler:
  assumes inv: "ipc_inv s"
  shows "ipc_inv (snd (IPC_createHandler s t h))"
proof (cases "h \<noteq> 0 \<and> unat (IPC_u8HandlerCnt s) \<noteq> 255 \<and> IPC_getHandlerIdx s t = -1")
  case False
  then show ?thesis using inv by (auto simp: IPC_createHandler_def)
next
  case True
  let ?n = "unat (IPC_u8HandlerCnt s)" and ?xs = "IPC_arHandler s"
  let ?q = "(queue (?xs ! ?n))\<lparr>queueSize := 0, queueTail := 0, queueHead := 0\<rparr>"
  let ?h = "(?xs ! ?n)\<lparr>recvId := t, handle := h, queue := ?q\<rparr>"
  from True cnt_le [of "IPC_u8HandlerCnt s"] have n: "?n < 255" by simp
  with inv have len: "?n < length ?xs" by (simp add: ipc_inv_def)
  then have "?xs ! ?n \<in> set ?xs" by simp
  with inv have "queue_shape (queue (?xs ! ?n))" by (simp add: ipc_inv_def)
  then have sh: "queue_shape ?q" by (simp add: queue_shape_def)
  have qi: "queue_inv ?q" by (simp add: queue_inv_def)
  have a: "set (?xs[?n := ?h]) \<subseteq> insert ?h (set ?xs)"
    by (rule set_update_subset_insert)
  have "take (Suc ?n) (?xs[?n := ?h]) = take ?n ?xs @ [?h]"
    using len by (simp add: take_Suc_conv_app_nth)
  then have b: "set (take (Suc ?n) (?xs[?n := ?h])) = insert ?h (set (take ?n ?xs))"
    by simp
  have "\<forall>x \<in> set (?xs[?n := ?h]). queue_shape (queue x)"
    using a inv sh by (auto simp: ipc_inv_def)
  moreover have "\<forall>x \<in> set (take (Suc ?n) (?xs[?n := ?h])). queue_inv (queue x)"
    unfolding b using inv qi by (auto simp: ipc_inv_def)
  ultimately have "ipc_inv (s\<lparr>IPC_arHandler := ?xs[?n := ?h], IPC_u8HandlerCnt := IPC_u8HandlerCnt s + 1\<rparr>)"
    using inv True by (simp add: ipc_inv_def cnt_succ)
  then show ?thesis using True by (simp add: IPC_createHandler_ok)
qed

lemma ipc_inv_register_upto: "ipc_inv (register_upto n)"
  by (induction n) (simp_all add: register_upto.simps ipc_inv_boot ipc_inv_createHandler)

lemma ipc_inv_send:
  assumes inv: "ipc_inv s" and res: "IPC_send ntf s r t d n = Inr (e, s')"
  shows "ipc_inv s'"
proof (cases "512 \<le> n")
  case True
  with res inv show ?thesis by (simp add: IPC_send_too_large)
next
  case False
  then have n: "n < 512" by simp
  from IPC_getHandlerIdx_cases [of s r] show ?thesis
  proof
    assume "IPC_getHandlerIdx s r = -1"
    from IPC_send_unregistered [OF n this] res show ?thesis by simp
  next
    assume "\<exists>k. IPC_getHandlerIdx s r = int k \<and> k < unat (IPC_u8HandlerCnt s) \<and> recvId (IPC_arHandler s ! k) = r"
    then obtain i where idx: "IPC_getHandlerIdx s r = int i" by blast
    from registered_slot [OF inv idx]
    have sh: "queue_shape (queue (IPC_arHandler s ! i))" and qi: "queue_inv (queue (IPC_arHandler s ! i))" .
    from qi have tl: "unat (queueTail (queue (IPC_arHandler s ! i))) < 16" by (simp add: queue_inv_def)
    show ?thesis
    proof (cases "nat n \<le> length d")
      case False
      then have "length d < nat n" by simp
      from IPC_send_short [OF idx tl n this] res show ?thesis by simp
    next
      case True
      from IPC_send_ok [OF inv idx n True] res
      have "s' = put_queue s i (enqueued (queue (IPC_arHandler s ! i)) t d n)" by simp
      then show ?thesis
        using ipc_inv_put_queue [OF inv queue_shape_enqueued [OF sh n True] queue_inv_enqueued [OF qi]]
        by simp
    qed
  qed
qed

lemma ipc_inv_receive:
  assumes inv: "ipc_inv s" and res: "IPC_receive s r buf = Inr (e, s', buf')"
  shows "ipc_inv s'"
proof -
  from IPC_getHandlerIdx_cases [of s r] show ?thesis
  proof
    assume "IPC_getHandlerIdx s r = -1"
    from IPC_receive_unregistered [OF this] res inv show ?thesis by simp
  next
    assume "\<exists>k. IPC_getHandlerIdx s r = int k \<and> k < unat (IPC_u8HandlerCnt s) \<and> recvId (IPC_arHandler s ! k) = r"
    then obtain i where idx: "IPC_getHandlerIdx s r = int i" by blast
    from registered_slot [OF inv idx]
    have sh: "queue_shape (queue (IPC_arHandler s ! i))" and qi: "queue_inv (queue (IPC_arHandler s ! i))" .
    show ?thesis
    proof (cases "queueSize (queue (IPC_arHandler s ! i)) = 0")
      case True
      from IPC_receive_empty [OF idx True] res inv show ?thesis by simp
    next
      case False
      from IPC_receive_ok [OF inv idx False] res
      have "s' = put_queue s i (dequeued (queue (IPC_arHandler s ! i)))" by simp
      then show ?thesis
        using ipc_inv_put_queue [OF inv queue_shape_dequeued [OF sh] queue_inv_dequeued [OF qi False]]
        by simp
    qed
  qed
qed

lemma boot_lookup: "IPC_getHandlerIdx boot_state r = -1"
  by (simp add: IPC_getHandlerIdx_def boot_state_def IPC_initIPCHandler_def)

lemma boot_not_registered: "\<not> registered boot_state r"
  by (simp add: registered_def boot_lookup)

lemma task1_state:
  "register_upto (Suc 0) =
     \<lparr>IPC_arHandler = (replicate 255 zero_handler)[0 := \<lparr>recvId = 1, handle = Suc 0, queue = zero_queue\<rparr>],
      IPC_u8HandlerCnt = 1\<rparr>"
proof -
  have "IPC_createHandler boot_state 1 (Suc 0) =
    (E_IPC_SUCCESS,
     boot_state\<lparr>IPC_arHandler := (IPC_arHandler boot_state)[unat (IPC_u8HandlerCnt boot_state) :=
          (IPC_arHandler boot_state ! unat (IPC_u8HandlerCnt boot_state))
          \<lparr>recvId := 1, handle := Suc 0,
           queue := (queue (IPC_arHandler boot_state ! unat (IPC_u8HandlerCnt boot_state)))
                     \<lparr>queueSize := 0, queueTail := 0, queueHead := 0\<rparr>\<rparr>],
       IPC_u8HandlerCnt := IPC_u8HandlerCnt boot_state + 1\<rparr>)"
    by (rule IPC_createHandler_ok) (simp_all add: boot_lookup, simp add: boot_state_def IPC_initIPCHandler_def)
  then show ?thesis
    by (simp add: register_upto.simps boot_state_def IPC_initIPCHandler_def zero_handler_def zero_queue_def)
qed

lemma task1_lookup: "IPC_getHandlerIdx (register_upto (Suc 0)) 1 = int 0"
  by (rule lookup_first) (simp_all add: task1_state)

lemma task1_registered: "registered (register_upto (Suc 0)) 1"
  by (simp add: registered_def task1_lookup)

lemma task1_inbox: "inbox (register_upto (Suc 0)) 1 = zero_queue"
  by (simp add: inbox_def task1_lookup) (simp add: task1_state)

lemma task1_count: "count_of (register_upto (Suc 0)) 1 = 0"
  by (simp add: count_of_def task1_inbox zero_queue_def)

lemma task1_handle: "wake_handle (register_upto (Suc 0)) 1 = Suc 0"
  by (simp add: wake_handle_def task1_lookup) (simp add: task1_state)

lemma hello_send:
  "IPC_send wake_passes (register_upto (Suc 0)) 1 E_IPC_MSG_TYPE_1 hello 13 =
     Inr (E_IPC_SUCCESS, put_queue (register_upto (Suc 0)) 0 (enqueued zero_queue E_IPC_MSG_TYPE_1 hello 13))"
proof -
  have q: "queue (IPC_arHandler (register_upto (Suc 0)) ! 0) = zero_queue"
    using task1_inbox by (simp add: inbox_def task1_lookup)
  show ?thesis
    using IPC_send_ok [OF ipc_inv_register_upto task1_lookup, of 13 hello wake_passes E_IPC_MSG_TYPE_1]
    by (simp add: hello_def wake_passes_def q)
qed

lemma hello_state_eq:
  "hello_state = put_queue (register_upto (Suc 0)) 0 (enqueued zero_queue E_IPC_MSG_TYPE_1 hello 13)"
  by (simp add: hello_state_def hello_times.simps after_send_def hello_send)

lemma hello_inv: "ipc_inv hello_state"
  using ipc_inv_send [OF ipc_inv_register_upto hello_send] by (simp add: hello_state_eq)

lemma hello_lookup: "IPC_getHandlerIdx hello_state 1 = int 0"
  by (simp add: hello_state_eq task1_lookup)

lemma hello_registered: "registered hello_state 1"
  by (simp add: registered_def hello_lookup)

lemma hello_inbox: "inbox hello_state 1 = enqueued zero_queue E_IPC_MSG_TYPE_1 hello 13"
  unfolding hello_state_eq
  by (rule inbox_put_queue) (rule task1_lookup, simp add: task1_state)

lemma hello_count: "count_of hello_state 1 = 1"
  by (simp add: count_of_def hello_inbox enqueued_def zero_queue_def)

section \<open>Receive: error paths\<close>

text \<open>
  Claim C10. When \<^verbatim>\<open>IPC_receive\<close> fails, the caller's buffer is as it was before the call:
  for a task without inbox the call returns \<^verbatim>\<open>E_IPC_ERR_NO_HANDLER\<close>, for an empty inbox
  \<^verbatim>\<open>E_IPC_ERR_RECV_FAIL\<close>, both with state and buffer untouched, and no return value other
  than the two success values ever comes with a changed buffer.
\<close>

theorem IPC_receive_failure_keeps_buffer:
  "(\<not> registered s r \<longrightarrow> IPC_receive s r buf = Inr (E_IPC_ERR_NO_HANDLER, s, buf)) \<and>
   (registered s r \<and> count_of s r = 0 \<longrightarrow> IPC_receive s r buf = Inr (E_IPC_ERR_RECV_FAIL, s, buf)) \<and>
   (IPC_receive s r buf = Inr (e, s', buf') \<and> e \<noteq> E_IPC_SUCCESS \<and> e \<noteq> E_IPC_RECV_MORE
      \<longrightarrow> buf' = buf)"
proof (intro conjI impI)
  assume "\<not> registered s r"
  then show "IPC_receive s r buf = Inr (E_IPC_ERR_NO_HANDLER, s, buf)"
    by (simp add: registered_def IPC_receive_unregistered)
next
  assume a: "registered s r \<and> count_of s r = 0"
  then have idx: "IPC_getHandlerIdx s r = int (nat (IPC_getHandlerIdx s r))"
    by (intro registered_idx) simp
  from a have "queueSize (queue (IPC_arHandler s ! nat (IPC_getHandlerIdx s r))) = 0"
    by (simp add: count_of_def inbox_def unat_eq_0)
  from IPC_receive_empty [OF idx this]
  show "IPC_receive s r buf = Inr (E_IPC_ERR_RECV_FAIL, s, buf)" .
next
  assume "IPC_receive s r buf = Inr (e, s', buf') \<and> e \<noteq> E_IPC_SUCCESS \<and> e \<noteq> E_IPC_RECV_MORE"
  then show "buf' = buf"
    by (auto simp: IPC_receive_def Let_def split: if_splits)
qed

theorem IPC_receive_failure_keeps_buffer_witness:
  "\<not> registered boot_state 1 \<and>
   IPC_receive boot_state 1 zero_msg = Inr (E_IPC_ERR_NO_HANDLER, boot_state, zero_msg) \<and>
   registered (register_upto 1) 1 \<and> count_of (register_upto 1) 1 = 0 \<and>
   IPC_receive (register_upto 1) 1 zero_msg = Inr (E_IPC_ERR_RECV_FAIL, register_upto 1, zero_msg)"
  using IPC_receive_failure_keeps_buffer [of boot_state 1 zero_msg E_IPC_ERR_NO_HANDLER boot_state zero_msg]
    IPC_receive_failure_keeps_buffer [of "register_upto 1" 1 zero_msg E_IPC_ERR_RECV_FAIL "register_upto 1" zero_msg]
  by (simp add: boot_not_registered task1_registered task1_count)

text \<open>
  Claim C8. On a registered inbox whose count is 0, any number \<open>n\<close> of consecutive
  \<^verbatim>\<open>IPC_receive\<close> calls all return \<^verbatim>\<open>E_IPC_ERR_RECV_FAIL\<close>, and each leaves the whole state
  (head, tail and count included) and the buffer as they were.
\<close>

theorem IPC_receive_empty_idempotent:
  assumes "registered s r" and "count_of s r = 0"
  shows "run r (replicate n Receive) s buf = Inr (replicate n (E_IPC_ERR_RECV_FAIL, s, buf))"
proof -
  from assms(1) have idx: "IPC_getHandlerIdx s r = int (nat (IPC_getHandlerIdx s r))"
    by (rule registered_idx)
  from assms(2) have "queueSize (queue (IPC_arHandler s ! nat (IPC_getHandlerIdx s r))) = 0"
    by (simp add: count_of_def inbox_def unat_eq_0)
  from IPC_receive_empty [OF idx this]
  have one: "IPC_receive s r buf = Inr (E_IPC_ERR_RECV_FAIL, s, buf)" .
  show ?thesis
    by (induction n) (simp_all add: one)
qed

theorem IPC_receive_empty_idempotent_witness:
  "registered (register_upto 1) 1 \<and> count_of (register_upto 1) 1 = 0 \<and>
   run 1 [Receive, Receive, Receive] (register_upto 1) zero_msg =
     Inr [(E_IPC_ERR_RECV_FAIL, register_upto 1, zero_msg),
          (E_IPC_ERR_RECV_FAIL, register_upto 1, zero_msg),
          (E_IPC_ERR_RECV_FAIL, register_upto 1, zero_msg)]"
  using IPC_receive_empty_idempotent [of "register_upto 1" 1 3 zero_msg]
  by (simp add: task1_registered task1_count numeral_3_eq_3)

section \<open>Effect of one operation on the inbox it addresses\<close>

lemma sent_inbox:
  assumes inv: "ipc_inv s" and idx: "IPC_getHandlerIdx s r = int i"
  shows "inbox (put_queue s i q) r = q"
    and "IPC_getHandlerIdx (put_queue s i q) r = int i"
    and "wake_handle (put_queue s i q) r = wake_handle s r"
proof -
  have len: "i < length (IPC_arHandler s)"
    using lookup_bound(2) [OF idx] inv by (simp add: ipc_inv_def)
  show "inbox (put_queue s i q) r = q"
    using inbox_put_queue [OF idx len] .
  show "IPC_getHandlerIdx (put_queue s i q) r = int i"
    using idx by simp
  show "wake_handle (put_queue s i q) r = wake_handle s r"
    using len by (simp add: wake_handle_def idx) (simp add: put_queue_def)
qed

lemma carries_stored:
  "nat n \<le> length d \<Longrightarrow> carries (stored old t d n) t d n"
  by (simp add: carries_def stored_def)

lemma enqueued_fields:
  "queueHead (enqueued q t d n) = queueHead q"
  "queueSize (enqueued q t d n) = queueSize q + 1"
  "queueTail (enqueued q t d n) = (if queueTail q = 15 then 0 else queueTail q + 1)"
  "msgQueue (enqueued q t d n) =
     (msgQueue q)[unat (queueTail q) := stored (msgQueue q ! unat (queueTail q)) t d n]"
  by (simp_all add: enqueued_def)

lemma dequeued_fields:
  "queueTail (dequeued q) = queueTail q"
  "queueSize (dequeued q) = queueSize q - 1"
  "queueHead (dequeued q) = (if queueHead q = 15 then 0 else queueHead q + 1)"
  "msgQueue (dequeued q) = msgQueue q"
  by (simp_all add: dequeued_def)

section \<open>Receive: the success path\<close>

text \<open>
  Claim C6. On a registered inbox with count above 0, \<^verbatim>\<open>IPC_receive\<close> hands the slot at the
  head to the caller's buffer, moves the head one slot on around the ring of 16, lowers the
  count by one, and returns \<^verbatim>\<open>E_IPC_RECV_MORE\<close> exactly when the new count is above 0 and
  \<^verbatim>\<open>E_IPC_SUCCESS\<close> exactly when it is 0; tail and slots stay as they were.
\<close>

theorem IPC_receive_nonempty:
  assumes "ipc_inv s" and "registered s r" and "0 < count_of s r"
  shows "\<exists>e s'. IPC_receive s r buf =
            Inr (e, s', msgQueue (inbox s r) ! unat (queueHead (inbox s r))) \<and>
          unat (queueHead (inbox s' r)) =
            (unat (queueHead (inbox s r)) + 1) mod IPC_MSG_QUEUE_LENGTH \<and>
          count_of s' r = count_of s r - 1 \<and>
          (e = E_IPC_RECV_MORE) = (0 < count_of s' r) \<and>
          (e = E_IPC_SUCCESS) = (count_of s' r = 0) \<and>
          queueTail (inbox s' r) = queueTail (inbox s r) \<and>
          msgQueue (inbox s' r) = msgQueue (inbox s r)"
proof -
  define i where "i = nat (IPC_getHandlerIdx s r)"
  have idx: "IPC_getHandlerIdx s r = int i"
    unfolding i_def using assms(2) by (rule registered_idx)
  let ?q = "queue (IPC_arHandler s ! i)"
  have q: "inbox s r = ?q" using idx by (rule inbox_idx)
  from assms(3) have ne: "queueSize ?q \<noteq> 0"
    by (simp add: count_of_def q unat_gt_0)
  from registered_slot(2) [OF assms(1) idx] have h: "unat (queueHead ?q) < 16"
    by (simp add: queue_inv_def)
  let ?s' = "put_queue s i (dequeued ?q)"
  have q': "inbox ?s' r = dequeued ?q"
    using sent_inbox(1) [OF assms(1) idx] .
  have sz: "unat (queueSize ?q - 1) = unat (queueSize ?q) - 1"
    using ne by (rule unat_minus_one)
  have more: "(0 < queueSize ?q - 1) = (0 < unat (queueSize ?q) - 1)"
    by (simp add: word_less_nat_alt sz)
  show ?thesis
    unfolding IPC_receive_ok [OF assms(1) idx ne]
    using advance_index [OF h] sz more
    by (simp add: q q' count_of_def dequeued_fields)
qed

theorem IPC_receive_nonempty_witness:
  "ipc_inv hello_state \<and> registered hello_state 1 \<and> 0 < count_of hello_state 1 \<and>
   (\<exists>e s'. IPC_receive hello_state 1 zero_msg =
            Inr (e, s', msgQueue (inbox hello_state 1) ! unat (queueHead (inbox hello_state 1))) \<and>
          unat (queueHead (inbox s' 1)) = (unat (queueHead (inbox hello_state 1)) + 1) mod 16 \<and>
          count_of s' 1 = count_of hello_state 1 - 1 \<and>
          (e = E_IPC_RECV_MORE) = (0 < count_of s' 1) \<and>
          (e = E_IPC_SUCCESS) = (count_of s' 1 = 0) \<and>
          queueTail (inbox s' 1) = queueTail (inbox hello_state 1) \<and>
          msgQueue (inbox s' 1) = msgQueue (inbox hello_state 1))"
  using IPC_receive_nonempty [of hello_state 1 zero_msg]
  by (simp add: hello_inv hello_registered hello_count)

section \<open>Send: the lookup result and the size check\<close>

lemma IPC_send_never_no_handler:
  "IPC_send ntf s r t d n \<noteq> Inr (E_IPC_ERR_NO_HANDLER, s')"
proof -
  have u: "uint (w :: 8 word) \<noteq> -1" for w
    using uint_ge_0 [of w] by linarith
  show ?thesis
    by (auto simp: IPC_send_def Let_def u split: if_splits sum.splits)
qed

text \<open>
  Claim C2. A send to a task without inbox ought to return \<^verbatim>\<open>E_IPC_ERR_NO_HANDLER\<close> and
  change nothing. The code never returns that value from \<^verbatim>\<open>IPC_send\<close>: straight after
  initialisation no inbox exists for task 1, and the demonstration's send to it indexes
  the handler table at 255, one past its last entry.
\<close>

theorem IPC_send_without_inbox:
  "IPC_send ntf s r t d n \<noteq> Inr (E_IPC_ERR_NO_HANDLER, s') \<and>
   \<not> registered boot_state E_IPC_TASK_ID_1 \<and>
   IPC_send wake_passes boot_state E_IPC_TASK_ID_1 E_IPC_MSG_TYPE_1 hello 13 =
     Inl Handler_Index_Out_Of_Bounds"
  using IPC_send_unregistered [of 13 boot_state 1 wake_passes E_IPC_MSG_TYPE_1 hello]
  by (simp add: IPC_send_never_no_handler boot_not_registered boot_lookup)

lemma IPC_send_effect:
  assumes inv: "ipc_inv s" and reg: "registered s r" and n: "n < 512" and d: "nat n \<le> length d"
  shows "\<exists>s'. IPC_send ntf s r t d n =
           Inr (if ntf (wake_handle s r) then E_IPC_SUCCESS else E_IPC_ERR_SEND_FAIL, s') \<and>
         ipc_inv s' \<and> IPC_getHandlerIdx s' r = IPC_getHandlerIdx s r \<and>
         wake_handle s' r = wake_handle s r \<and>
         inbox s' r = enqueued (inbox s r) t d n"
proof -
  define i where "i = nat (IPC_getHandlerIdx s r)"
  have idx: "IPC_getHandlerIdx s r = int i"
    unfolding i_def using reg by (rule registered_idx)
  let ?q = "queue (IPC_arHandler s ! i)"
  let ?s' = "put_queue s i (enqueued ?q t d n)"
  have q: "inbox s r = ?q" using idx by (rule inbox_idx)
  have w: "wake_handle s r = handle (IPC_arHandler s ! i)"
    by (simp add: wake_handle_def idx)
  have res: "IPC_send ntf s r t d n =
      Inr (if ntf (wake_handle s r) then E_IPC_SUCCESS else E_IPC_ERR_SEND_FAIL, ?s')"
    unfolding w by (rule IPC_send_ok [OF inv idx n d])
  have "ipc_inv ?s'" using ipc_inv_send [OF inv res] .
  moreover note sent_inbox [OF inv idx, of "enqueued ?q t d n"]
  ultimately show ?thesis
    using res idx q by auto
qed

lemma IPC_receive_effect:
  assumes inv: "ipc_inv s" and reg: "registered s r" and ne: "queueSize (inbox s r) \<noteq> 0"
  shows "\<exists>s'. IPC_receive s r buf =
           Inr (if 0 < queueSize (inbox s r) - 1 then E_IPC_RECV_MORE else E_IPC_SUCCESS, s',
                msgQueue (inbox s r) ! unat (queueHead (inbox s r))) \<and>
         ipc_inv s' \<and> IPC_getHandlerIdx s' r = IPC_getHandlerIdx s r \<and>
         wake_handle s' r = wake_handle s r \<and>
         inbox s' r = dequeued (inbox s r)"
proof -
  define i where "i = nat (IPC_getHandlerIdx s r)"
  have idx: "IPC_getHandlerIdx s r = int i"
    unfolding i_def using reg by (rule registered_idx)
  let ?q = "queue (IPC_arHandler s ! i)"
  let ?s' = "put_queue s i (dequeued ?q)"
  have q: "inbox s r = ?q" using idx by (rule inbox_idx)
  from ne have ne': "queueSize ?q \<noteq> 0" by (simp add: q)
  have res: "IPC_receive s r buf =
      Inr (if 0 < queueSize ?q - 1 then E_IPC_RECV_MORE else E_IPC_SUCCESS, ?s',
           msgQueue ?q ! unat (queueHead ?q))"
    by (rule IPC_receive_ok [OF inv idx ne'])
  have "ipc_inv ?s'" using ipc_inv_receive [OF inv res] .
  moreover note sent_inbox [OF inv idx, of "dequeued ?q"]
  ultimately show ?thesis
    using res idx q by auto
qed

lemma inbox_inv:
  assumes "ipc_inv s" and "registered s r"
  shows "queue_inv (inbox s r)" and "queue_shape (inbox s r)"
proof -
  have idx: "IPC_getHandlerIdx s r = int (nat (IPC_getHandlerIdx s r))"
    using assms(2) by (rule registered_idx)
  from registered_slot [OF assms(1) idx]
  show "queue_inv (inbox s r)" and "queue_shape (inbox s r)"
    by (simp_all add: inbox_def)
qed

section \<open>Draining an inbox\<close>

lemma drain:
  assumes "ipc_inv s" and "registered s r" and "k \<le> count_of s r"
  shows "\<exists>tr. run r (replicate k Receive) s buf = Inr tr \<and>
           buffers tr = take k (pending (inbox s r)) \<and>
           (\<forall>e \<in> set (returned tr). e = E_IPC_SUCCESS \<or> e = E_IPC_RECV_MORE)"
  using assms
proof (induction k arbitrary: s buf)
  case 0
  then show ?case by (simp add: buffers_def returned_def)
next
  case (Suc k)
  let ?q = "inbox s r"
  from Suc.prems(3) have pos: "0 < unat (queueSize ?q)" by (simp add: count_of_def)
  then have ne: "queueSize ?q \<noteq> 0" by (simp add: unat_gt_0)
  from IPC_receive_effect [OF Suc.prems(1,2) ne, of buf]
  obtain s' where res: "IPC_receive s r buf =
      Inr (if 0 < queueSize ?q - 1 then E_IPC_RECV_MORE else E_IPC_SUCCESS, s',
           msgQueue ?q ! unat (queueHead ?q))"
    and inv': "ipc_inv s'" and idx': "IPC_getHandlerIdx s' r = IPC_getHandlerIdx s r"
    and q': "inbox s' r = dequeued ?q"
    by blast
  have reg': "registered s' r" using Suc.prems(2) by (simp add: registered_def idx')
  have "count_of s' r = count_of s r - 1"
    using unat_minus_one [OF ne] by (simp add: count_of_def q' dequeued_fields)
  with Suc.prems(3) have k: "k \<le> count_of s' r" by simp
  from Suc.IH [OF inv' reg' k, of "msgQueue ?q ! unat (queueHead ?q)"]
  obtain tr where run': "run r (replicate k Receive) s' (msgQueue ?q ! unat (queueHead ?q)) = Inr tr"
    and bufs: "buffers tr = take k (pending (dequeued ?q))"
    and rets: "\<forall>e \<in> set (returned tr). e = E_IPC_SUCCESS \<or> e = E_IPC_RECV_MORE"
    unfolding q' by blast
  have p: "pending ?q = msgQueue ?q ! unat (queueHead ?q) # pending (dequeued ?q)"
    using pending_dequeued [OF inbox_inv(1) [OF Suc.prems(1,2)] ne] .
  show ?case
    using res run' bufs rets
    by (simp add: p buffers_def returned_def)
qed

section \<open>Send: the size check\<close>

text \<open>
  Claim C5. \<^verbatim>\<open>IPC_send\<close> rejects on size exactly when the length is at least
  \<^verbatim>\<open>IPC_MAX_DATA_LENGTH\<close>: it returns \<^verbatim>\<open>E_IPC_ERR_SEND_FAIL\<close> with the state untouched if
  and only if \<open>512 \<le> aDataSize\<close>. A send of 511 bytes to a registered inbox with room,
  with a notification that passes, returns \<^verbatim>\<open>E_IPC_SUCCESS\<close> and appends its message to
  the pending ones.
\<close>

theorem IPC_send_size_boundary:
  assumes "ipc_inv s"
  shows "(IPC_send ntf s r t d n = Inr (E_IPC_ERR_SEND_FAIL, s)) = (IPC_MAX_DATA_LENGTH \<le> n) \<and>
    (registered s r \<and> count_of s r < IPC_MSG_QUEUE_LENGTH \<and>
     nat (IPC_MAX_DATA_LENGTH - 1) \<le> length d \<and> ntf (wake_handle s r) \<longrightarrow>
       (\<exists>s' m. IPC_send ntf s r t d (IPC_MAX_DATA_LENGTH - 1) = Inr (E_IPC_SUCCESS, s') \<and>
          count_of s' r = Suc (count_of s r) \<and>
          pending (inbox s' r) = pending (inbox s r) @ [m] \<and>
          carries m t d (IPC_MAX_DATA_LENGTH - 1)))"
proof (intro conjI impI)
  show "(IPC_send ntf s r t d n = Inr (E_IPC_ERR_SEND_FAIL, s)) = (512 \<le> n)"
  proof
    assume "512 \<le> n"
    then show "IPC_send ntf s r t d n = Inr (E_IPC_ERR_SEND_FAIL, s)"
      by (rule IPC_send_too_large)
  next
    assume res: "IPC_send ntf s r t d n = Inr (E_IPC_ERR_SEND_FAIL, s)"
    show "512 \<le> n"
    proof (rule ccontr)
      assume "\<not> 512 \<le> n"
      then have n: "n < 512" by simp
      have reg: "registered s r"
        using IPC_send_unregistered [OF n, of s r ntf t d] res by (auto simp: registered_def)
      have idx: "IPC_getHandlerIdx s r = int (nat (IPC_getHandlerIdx s r))"
        using reg by (rule registered_idx)
      from registered_slot(2) [OF assms idx]
      have tl: "unat (queueTail (queue (IPC_arHandler s ! nat (IPC_getHandlerIdx s r)))) < 16"
        by (simp add: queue_inv_def)
      have d: "nat n \<le> length d"
        using IPC_send_short [OF idx tl n, of d ntf t] res by (cases "nat n \<le> length d") auto
      from IPC_send_effect [OF assms reg n d, of ntf t] res
      have "inbox s r = enqueued (inbox s r) t d n" by auto
      then have "queueSize (inbox s r) = queueSize (inbox s r) + 1"
        by (metis enqueued_fields(2))
      then show False by simp
    qed
  qed
next
  assume a: "registered s r \<and> count_of s r < 16 \<and> nat (512 - 1) \<le> length d \<and> ntf (wake_handle s r)"
  then have reg: "registered s r" and room: "unat (queueSize (inbox s r)) < 16"
    and d: "nat 511 \<le> length d" and ok: "ntf (wake_handle s r)"
    by (simp_all add: count_of_def)
  from IPC_send_effect [OF assms reg _ d, of ntf t] ok
  obtain s' where res: "IPC_send ntf s r t d 511 = Inr (E_IPC_SUCCESS, s')"
    and q': "inbox s' r = enqueued (inbox s r) t d 511"
    by auto
  have cnt: "count_of s' r = Suc (count_of s r)"
    using room by (simp add: count_of_def q' enqueued_fields unat_word_ariths)
  have p: "pending (inbox s' r) =
      pending (inbox s r) @ [stored (msgQueue (inbox s r) ! unat (queueTail (inbox s r))) t d 511]"
    unfolding q' using inbox_inv [OF assms reg] room
    by (intro pending_enqueued) (simp_all add: queue_shape_def)
  show "\<exists>s' m. IPC_send ntf s r t d (512 - 1) = Inr (E_IPC_SUCCESS, s') \<and>
          count_of s' r = Suc (count_of s r) \<and>
          pending (inbox s' r) = pending (inbox s r) @ [m] \<and>
          carries m t d (512 - 1)"
    using res cnt p carries_stored [OF d] by auto
qed

theorem IPC_send_size_boundary_witness:
  "ipc_inv (register_upto 1) \<and>
   IPC_send wake_passes (register_upto 1) 1 E_IPC_MSG_TYPE_1 (replicate 512 65) 512 =
     Inr (E_IPC_ERR_SEND_FAIL, register_upto 1) \<and>
   registered (register_upto 1) 1 \<and> count_of (register_upto 1) 1 < 16 \<and>
   nat (512 - 1) \<le> length (replicate 511 (65 :: 8 word)) \<and>
   wake_passes (wake_handle (register_upto 1) 1) \<and>
   (\<exists>s' m. IPC_send wake_passes (register_upto 1) 1 E_IPC_MSG_TYPE_1 (replicate 511 65) (512 - 1) =
        Inr (E_IPC_SUCCESS, s') \<and>
      count_of s' 1 = Suc (count_of (register_upto 1) 1) \<and>
      pending (inbox s' 1) = pending (inbox (register_upto 1) 1) @ [m] \<and>
      carries m E_IPC_MSG_TYPE_1 (replicate 511 65) (512 - 1))"
  using IPC_send_size_boundary [of "register_upto 1" wake_passes 1 E_IPC_MSG_TYPE_1 "replicate 512 65" 512]
    IPC_send_size_boundary [of "register_upto 1" wake_passes 1 E_IPC_MSG_TYPE_1 "replicate 511 65" 0]
  by (simp add: ipc_inv_register_upto task1_registered task1_count wake_passes_def)

lemma length_pending [simp]: "length (pending q) = unat (queueSize q)"
  by (simp add: pending_def)

lemma IPC_send_success_cases:
  assumes inv: "ipc_inv s" and res: "IPC_send ntf s r t d n = Inr (E_IPC_SUCCESS, s')"
  shows "n < 512" and "registered s r" and "nat n \<le> length d"
proof -
  show n: "n < 512"
    using IPC_send_too_large [of n ntf s r t d] res by (cases "512 \<le> n") auto
  show reg: "registered s r"
    using IPC_send_unregistered [OF n, of s r ntf t d] res by (auto simp: registered_def)
  have idx: "IPC_getHandlerIdx s r = int (nat (IPC_getHandlerIdx s r))"
    using reg by (rule registered_idx)
  from registered_slot(2) [OF inv idx]
  have tl: "unat (queueTail (queue (IPC_arHandler s ! nat (IPC_getHandlerIdx s r)))) < 16"
    by (simp add: queue_inv_def)
  show "nat n \<le> length d"
    using IPC_send_short [OF idx tl n, of d ntf t] res by (cases "nat n \<le> length d") auto
qed

lemma enqueued_append:
  assumes "ipc_inv s" and "registered s r" and "count_of s r < 16" and "nat n \<le> length d"
  shows "\<exists>m. pending (enqueued (inbox s r) t d n) = pending (inbox s r) @ [m] \<and> carries m t d n"
proof -
  from inbox_inv [OF assms(1,2)] have qi: "queue_inv (inbox s r)"
    and len: "length (msgQueue (inbox s r)) = 16"
    by (simp_all add: queue_shape_def)
  from assms(3) have room: "unat (queueSize (inbox s r)) < 16" by (simp add: count_of_def)
  from pending_enqueued [OF qi len room, of t d n] carries_stored [OF assms(4)]
  show ?thesis by blast
qed

lemma count_enqueued:
  "count_of s r < 255 \<Longrightarrow> unat (queueSize (enqueued (inbox s r) t d n)) = Suc (count_of s r)"
  by (simp add: count_of_def enqueued_fields unat_word_ariths)

section \<open>Send: a notification that fails\<close>

text \<open>
  Claim C7. When the message has been stored in a registered inbox with room and the
  notification then fails, \<^verbatim>\<open>IPC_send\<close> returns \<^verbatim>\<open>E_IPC_ERR_SEND_FAIL\<close> and leaves exactly the
  state that the same send leaves when the notification passes: the count is one higher,
  the tail one slot on, the slot at the old tail carries the message, and once the
  messages pending before it have been received, the next receive returns it.
\<close>

theorem IPC_send_wake_failed_keeps_message:
  assumes "ipc_inv s" and "registered s r" and "count_of s r < IPC_MSG_QUEUE_LENGTH"
    and "n < IPC_MAX_DATA_LENGTH" and "nat n \<le> length d" and "\<not> ntf (wake_handle s r)"
  shows "\<exists>s'. IPC_send ntf s r t d n = Inr (E_IPC_ERR_SEND_FAIL, s') \<and>
           IPC_send wake_passes s r t d n = Inr (E_IPC_SUCCESS, s') \<and>
           count_of s' r = Suc (count_of s r) \<and>
           unat (queueTail (inbox s' r)) =
             (unat (queueTail (inbox s r)) + 1) mod IPC_MSG_QUEUE_LENGTH \<and>
           carries (msgQueue (inbox s' r) ! unat (queueTail (inbox s r))) t d n \<and>
           (\<exists>tr. run r (replicate (Suc (count_of s r)) Receive) s' buf = Inr tr \<and>
              carries (last (buffers tr)) t d n)"
proof -
  define i where "i = nat (IPC_getHandlerIdx s r)"
  have idx: "IPC_getHandlerIdx s r = int i"
    unfolding i_def using assms(2) by (rule registered_idx)
  let ?q = "inbox s r"
  let ?s' = "put_queue s i (enqueued ?q t d n)"
  have q: "queue (IPC_arHandler s ! i) = ?q" using inbox_idx [OF idx] by simp
  have w: "handle (IPC_arHandler s ! i) = wake_handle s r"
    by (simp add: wake_handle_def idx)
  have fail: "IPC_send ntf s r t d n = Inr (E_IPC_ERR_SEND_FAIL, ?s')"
    using IPC_send_ok [OF assms(1) idx assms(4,5), of ntf t] assms(6) by (simp add: q w)
  have pass: "IPC_send wake_passes s r t d n = Inr (E_IPC_SUCCESS, ?s')"
    using IPC_send_ok [OF assms(1) idx assms(4,5), of wake_passes t] by (simp add: q wake_passes_def)
  have inv': "ipc_inv ?s'" using ipc_inv_send [OF assms(1) fail] .
  have q': "inbox ?s' r = enqueued ?q t d n" using sent_inbox(1) [OF assms(1) idx] .
  have reg': "registered ?s' r" using assms(2) by (simp add: registered_def)
  have cnt: "count_of ?s' r = Suc (count_of s r)"
    using count_enqueued [of s r t d n] assms(3) by (simp add: count_of_def q')
  from inbox_inv [OF assms(1,2)] have tl: "unat (queueTail ?q) < 16"
    and len: "length (msgQueue ?q) = 16"
    by (simp_all add: queue_inv_def queue_shape_def)
  have tail: "unat (queueTail (inbox ?s' r)) = (unat (queueTail ?q) + 1) mod 16"
    using advance_index [OF tl] by (simp add: q' enqueued_fields)
  have slot: "carries (msgQueue (inbox ?s' r) ! unat (queueTail ?q)) t d n"
    using tl len carries_stored [OF assms(5)] by (simp add: q' enqueued_fields)
  from enqueued_append [OF assms(1,2,3,5), of t]
  obtain m where p: "pending (inbox ?s' r) = pending ?q @ [m]" and m: "carries m t d n"
    unfolding q' by blast
  from drain [OF inv' reg', of "Suc (count_of s r)" buf] cnt
  obtain tr where run: "run r (replicate (Suc (count_of s r)) Receive) ?s' buf = Inr tr"
    and bufs: "buffers tr = take (Suc (count_of s r)) (pending (inbox ?s' r))"
    by auto
  have "buffers tr = pending ?q @ [m]"
    unfolding bufs p by (simp add: count_of_def)
  then have "carries (last (buffers tr)) t d n" using m by simp
  with fail pass cnt tail slot run show ?thesis by blast
qed

theorem IPC_send_wake_failed_keeps_message_witness:
  "ipc_inv (register_upto 1) \<and> registered (register_upto 1) 1 \<and>
   count_of (register_upto 1) 1 < 16 \<and> (13 :: int) < 512 \<and> nat 13 \<le> length hello \<and>
   \<not> wake_fails (wake_handle (register_upto 1) 1) \<and>
   (\<exists>s'. IPC_send wake_fails (register_upto 1) 1 E_IPC_MSG_TYPE_1 hello 13 =
            Inr (E_IPC_ERR_SEND_FAIL, s') \<and>
          IPC_send wake_passes (register_upto 1) 1 E_IPC_MSG_TYPE_1 hello 13 =
            Inr (E_IPC_SUCCESS, s') \<and>
          count_of s' 1 = Suc (count_of (register_upto 1) 1) \<and>
          unat (queueTail (inbox s' 1)) = (unat (queueTail (inbox (register_upto 1) 1)) + 1) mod 16 \<and>
          carries (msgQueue (inbox s' 1) ! unat (queueTail (inbox (register_upto 1) 1)))
            E_IPC_MSG_TYPE_1 hello 13 \<and>
          (\<exists>tr. run 1 (replicate (Suc (count_of (register_upto 1) 1)) Receive) s' zero_msg = Inr tr \<and>
             carries (last (buffers tr)) E_IPC_MSG_TYPE_1 hello 13))"
  using IPC_send_wake_failed_keeps_message
    [of "register_upto 1" 1 13 hello wake_fails E_IPC_MSG_TYPE_1 zero_msg]
  by (simp add: ipc_inv_register_upto task1_registered task1_count wake_fails_def hello_def)

section \<open>First in, first out\<close>

text \<open>
  Claim C4, as the code has it. Let two sends to the same inbox, first A and then B, both
  return \<^verbatim>\<open>E_IPC_SUCCESS\<close> with no receive in between, the inbox holding \<open>k\<close> messages
  before A with \<open>k + 2 \<le> 16\<close>. Then the next \<open>k + 2\<close> receives all succeed; the first \<open>k\<close>
  return the messages that were pending before A, in their order, the next one returns A
  and the one after it B. For an inbox that was empty the next two receives return A and
  then B.
\<close>

theorem IPC_send_receive_fifo:
  assumes "ipc_inv s"
    and "IPC_send ntfA s r tA dA nA = Inr (E_IPC_SUCCESS, s1)"
    and "IPC_send ntfB s1 r tB dB nB = Inr (E_IPC_SUCCESS, s2)"
    and "count_of s r + 2 \<le> IPC_MSG_QUEUE_LENGTH"
  shows "\<exists>tr. run r (replicate (count_of s r + 2) Receive) s2 buf = Inr tr \<and>
           (\<forall>e \<in> set (returned tr). e = E_IPC_SUCCESS \<or> e = E_IPC_RECV_MORE) \<and>
           take (count_of s r) (buffers tr) = pending (inbox s r) \<and>
           carries (buffers tr ! count_of s r) tA dA nA \<and>
           carries (buffers tr ! Suc (count_of s r)) tB dB nB"
proof -
  let ?k = "count_of s r"
  note A = IPC_send_success_cases [OF assms(1,2)]
  from IPC_send_effect [OF assms(1) A(2,1,3), of ntfA tA] assms(2)
  have inv1: "ipc_inv s1" and idx1: "IPC_getHandlerIdx s1 r = IPC_getHandlerIdx s r"
    and q1: "inbox s1 r = enqueued (inbox s r) tA dA nA"
    by auto
  have reg1: "registered s1 r" using A(2) by (simp add: registered_def idx1)
  have c1: "count_of s1 r = Suc ?k"
    using count_enqueued [of s r tA dA nA] assms(4) by (simp add: count_of_def q1)
  from enqueued_append [OF assms(1) A(2) _ A(3), of tA] assms(4)
  obtain mA where p1: "pending (inbox s1 r) = pending (inbox s r) @ [mA]"
    and mA: "carries mA tA dA nA"
    unfolding q1 by auto
  note B = IPC_send_success_cases [OF inv1 assms(3)]
  from IPC_send_effect [OF inv1 B(2,1,3), of ntfB tB] assms(3)
  have inv2: "ipc_inv s2" and idx2: "IPC_getHandlerIdx s2 r = IPC_getHandlerIdx s1 r"
    and q2: "inbox s2 r = enqueued (inbox s1 r) tB dB nB"
    by auto
  have reg2: "registered s2 r" using reg1 by (simp add: registered_def idx2)
  have c2: "count_of s2 r = ?k + 2"
    using count_enqueued [of s1 r tB dB nB] assms(4) c1 by (simp add: count_of_def q2)
  from enqueued_append [OF inv1 reg1 _ B(3), of tB] assms(4) c1
  obtain mB where p2: "pending (inbox s2 r) = pending (inbox s1 r) @ [mB]"
    and mB: "carries mB tB dB nB"
    unfolding q2 by auto
  from drain [OF inv2 reg2, of "?k + 2" buf] c2
  obtain tr where run: "run r (replicate (?k + 2) Receive) s2 buf = Inr tr"
    and bufs: "buffers tr = take (?k + 2) (pending (inbox s2 r))"
    and rets: "\<forall>e \<in> set (returned tr). e = E_IPC_SUCCESS \<or> e = E_IPC_RECV_MORE"
    by auto
  have len: "length (pending (inbox s r)) = ?k" by (simp add: count_of_def)
  have all: "buffers tr = pending (inbox s r) @ [mA, mB]"
    unfolding bufs p2 p1 using len by simp
  have "take ?k (buffers tr) = pending (inbox s r)"
    unfolding all using len by simp
  moreover have "buffers tr ! ?k = mA"
    unfolding all using len by (simp add: nth_append)
  moreover have "buffers tr ! Suc ?k = mB"
    unfolding all using len by (simp add: nth_append)
  ultimately show ?thesis using run rets mA mB by auto
qed

section \<open>The demonstration states\<close>

lemma after_send_eq:
  assumes "ipc_inv s" and "registered s r" and "n < 512" and "nat n \<le> length d"
  shows "IPC_send ntf s r t d n =
           Inr (if ntf (wake_handle s r) then E_IPC_SUCCESS else E_IPC_ERR_SEND_FAIL,
                after_send ntf s r t d n)"
    and "ipc_inv (after_send ntf s r t d n)"
    and "registered (after_send ntf s r t d n) r"
    and "wake_handle (after_send ntf s r t d n) r = wake_handle s r"
    and "inbox (after_send ntf s r t d n) r = enqueued (inbox s r) t d n"
proof -
  from IPC_send_effect [OF assms, of ntf t]
  obtain s' where res: "IPC_send ntf s r t d n =
      Inr (if ntf (wake_handle s r) then E_IPC_SUCCESS else E_IPC_ERR_SEND_FAIL, s')"
    and rest: "ipc_inv s'" "IPC_getHandlerIdx s' r = IPC_getHandlerIdx s r"
      "wake_handle s' r = wake_handle s r" "inbox s' r = enqueued (inbox s r) t d n"
    by blast
  have eq: "after_send ntf s r t d n = s'" by (simp add: after_send_def res)
  show "IPC_send ntf s r t d n =
      Inr (if ntf (wake_handle s r) then E_IPC_SUCCESS else E_IPC_ERR_SEND_FAIL,
           after_send ntf s r t d n)"
    unfolding eq by (rule res)
  show "ipc_inv (after_send ntf s r t d n)" unfolding eq by (rule rest)
  show "registered (after_send ntf s r t d n) r"
    unfolding eq using assms(2) by (simp add: registered_def rest)
  show "wake_handle (after_send ntf s r t d n) r = wake_handle s r" unfolding eq by (rule rest)
  show "inbox (after_send ntf s r t d n) r = enqueued (inbox s r) t d n" unfolding eq by (rule rest)
qed

lemma hello_times_facts:
  "k \<le> 255 \<Longrightarrow>
   ipc_inv (hello_times k) \<and> registered (hello_times k) 1 \<and>
   wake_handle (hello_times k) 1 = Suc 0 \<and> count_of (hello_times k) 1 = k \<and>
   queueHead (inbox (hello_times k) 1) = 0"
proof (induction k)
  case 0
  show ?case
    by (simp add: hello_times.simps ipc_inv_register_upto task1_registered task1_handle
        task1_count task1_inbox zero_queue_def)
next
  case (Suc k)
  then have inv: "ipc_inv (hello_times k)" and reg: "registered (hello_times k) 1"
    and w: "wake_handle (hello_times k) 1 = Suc 0" and c: "count_of (hello_times k) 1 = k"
    and h: "queueHead (inbox (hello_times k) 1) = 0"
    by simp_all
  have n: "(13 :: int) < 512" and d: "nat 13 \<le> length hello" by (simp_all add: hello_def)
  note step = after_send_eq [OF inv reg n d, of wake_passes E_IPC_MSG_TYPE_1]
  have "count_of (hello_times (Suc k)) 1 = Suc k"
    using count_enqueued [of "hello_times k" 1 E_IPC_MSG_TYPE_1 hello 13] c Suc.prems
    by (simp add: hello_times.simps count_of_def step(5))
  then show ?case
    using step(2,3,4) w h by (simp add: hello_times.simps step(5) enqueued_fields)
qed

lemma hello_times_send:
  assumes "k < 255"
  shows "IPC_send wake_passes (hello_times k) 1 E_IPC_MSG_TYPE_1 hello 13 =
           Inr (E_IPC_SUCCESS, hello_times (Suc k))"
proof -
  from hello_times_facts [of k] assms
  have inv: "ipc_inv (hello_times k)" and reg: "registered (hello_times k) 1" by simp_all
  have n: "(13 :: int) < 512" and d: "nat 13 \<le> length hello" by (simp_all add: hello_def)
  from after_send_eq(1) [OF inv reg n d, of wake_passes E_IPC_MSG_TYPE_1]
  show ?thesis by (simp add: hello_times.simps wake_passes_def)
qed

lemma hello_state_times: "hello_state = hello_times (Suc 0)"
  by (simp add: hello_state_def)

lemma hello_pending: "pending (inbox hello_state 1) = [stored zero_msg E_IPC_MSG_TYPE_1 hello 13]"
proof -
  have "pending (enqueued zero_queue E_IPC_MSG_TYPE_1 hello 13) =
      pending zero_queue @ [stored (msgQueue zero_queue ! unat (queueTail zero_queue)) E_IPC_MSG_TYPE_1 hello 13]"
    by (rule pending_enqueued) (simp_all add: queue_inv_zero, simp_all add: zero_queue_def)
  then show ?thesis
    by (simp add: hello_inbox) (simp add: zero_queue_def pending_def)
qed

lemma hello_handle: "wake_handle hello_state 1 = Suc 0"
  using hello_times_facts [of "Suc 0"] by (simp add: hello_state_times)

lemma hello_A_facts:
  "IPC_send wake_passes hello_state 1 E_IPC_MSG_TYPE_2 [65] 1 = Inr (E_IPC_SUCCESS, hello_A_state)"
  "ipc_inv hello_A_state" "registered hello_A_state 1"
  "inbox hello_A_state 1 = enqueued (inbox hello_state 1) E_IPC_MSG_TYPE_2 [65] 1"
  using after_send_eq [OF hello_inv hello_registered, of 1 "[65]" wake_passes E_IPC_MSG_TYPE_2]
  by (simp_all add: hello_A_state_def wake_passes_def)

lemma hello_A_B_facts:
  "IPC_send wake_passes hello_A_state 1 E_IPC_MSG_TYPE_2 [66] 1 = Inr (E_IPC_SUCCESS, hello_A_B_state)"
  "ipc_inv hello_A_B_state" "registered hello_A_B_state 1"
  "inbox hello_A_B_state 1 = enqueued (inbox hello_A_state 1) E_IPC_MSG_TYPE_2 [66] 1"
  using after_send_eq [OF hello_A_facts(2,3), of 1 "[66]" wake_passes E_IPC_MSG_TYPE_2]
  by (simp_all add: hello_A_B_state_def wake_passes_def)

lemma hello_A_count: "count_of hello_A_state 1 = 2"
  by (simp add: count_of_def hello_A_facts(4) hello_inbox enqueued_fields zero_queue_def)

lemma hello_A_B_count: "count_of hello_A_B_state 1 = 3"
  by (simp add: count_of_def hello_A_B_facts(4) hello_A_facts(4) hello_inbox enqueued_fields zero_queue_def)

lemma hello_A_pending:
  "pending (inbox hello_A_state 1) =
     [stored zero_msg E_IPC_MSG_TYPE_1 hello 13, stored zero_msg E_IPC_MSG_TYPE_2 [65] 1]"
proof -
  have "pending (enqueued (inbox hello_state 1) E_IPC_MSG_TYPE_2 [65] 1) =
      pending (inbox hello_state 1) @
      [stored (msgQueue (inbox hello_state 1) ! unat (queueTail (inbox hello_state 1))) E_IPC_MSG_TYPE_2 [65] 1]"
    using inbox_inv [OF hello_inv hello_registered] hello_count
    by (intro pending_enqueued) (simp_all add: queue_shape_def count_of_def)
  then show ?thesis
    by (simp add: hello_A_facts(4) hello_pending)
       (simp add: hello_inbox enqueued_fields zero_queue_def)
qed

lemma hello_A_B_pending:
  "pending (inbox hello_A_B_state 1) =
     [stored zero_msg E_IPC_MSG_TYPE_1 hello 13, stored zero_msg E_IPC_MSG_TYPE_2 [65] 1,
      stored zero_msg E_IPC_MSG_TYPE_2 [66] 1]"
proof -
  have "pending (enqueued (inbox hello_A_state 1) E_IPC_MSG_TYPE_2 [66] 1) =
      pending (inbox hello_A_state 1) @
      [stored (msgQueue (inbox hello_A_state 1) ! unat (queueTail (inbox hello_A_state 1))) E_IPC_MSG_TYPE_2 [66] 1]"
    using inbox_inv [OF hello_A_facts(2,3)] hello_A_count
    by (intro pending_enqueued) (simp_all add: queue_shape_def count_of_def)
  then show ?thesis
    by (simp add: hello_A_B_facts(4) hello_A_pending)
       (simp add: hello_A_facts(4) hello_inbox enqueued_fields zero_queue_def)
qed

lemma drain_returned:
  assumes "ipc_inv s" and "registered s r" and "k \<le> count_of s r"
  shows "\<exists>tr. run r (replicate k Receive) s buf = Inr tr \<and>
           returned tr =
             map (\<lambda>j. if Suc j < count_of s r then E_IPC_RECV_MORE else E_IPC_SUCCESS) [0 ..< k]"
  using assms
proof (induction k arbitrary: s buf)
  case 0
  then show ?case by (simp add: returned_def)
next
  case (Suc k)
  let ?q = "inbox s r"
  from Suc.prems(3) have pos: "0 < unat (queueSize ?q)" by (simp add: count_of_def)
  then have ne: "queueSize ?q \<noteq> 0" by (simp add: unat_gt_0)
  from IPC_receive_effect [OF Suc.prems(1,2) ne, of buf]
  obtain s' where res: "IPC_receive s r buf =
      Inr (if 0 < queueSize ?q - 1 then E_IPC_RECV_MORE else E_IPC_SUCCESS, s',
           msgQueue ?q ! unat (queueHead ?q))"
    and inv': "ipc_inv s'" and idx': "IPC_getHandlerIdx s' r = IPC_getHandlerIdx s r"
    and q': "inbox s' r = dequeued ?q"
    by blast
  have reg': "registered s' r" using Suc.prems(2) by (simp add: registered_def idx')
  have c': "count_of s' r = count_of s r - 1"
    using unat_minus_one [OF ne] by (simp add: count_of_def q' dequeued_fields)
  with Suc.prems(3) have k: "k \<le> count_of s' r" by simp
  from Suc.IH [OF inv' reg' k, of "msgQueue ?q ! unat (queueHead ?q)"]
  obtain tr where run': "run r (replicate k Receive) s' (msgQueue ?q ! unat (queueHead ?q)) = Inr tr"
    and rets: "returned tr =
      map (\<lambda>j. if Suc j < count_of s' r then E_IPC_RECV_MORE else E_IPC_SUCCESS) [0 ..< k]"
    by blast
  have first: "(0 < queueSize ?q - 1) = (Suc 0 < count_of s r)"
    using unat_minus_one [OF ne] by (simp add: word_less_nat_alt count_of_def)
  have idx: "[0 ..< Suc k] = 0 # map Suc [0 ..< k]"
    by (simp only: map_Suc_upt) (simp add: upt_conv_Cons)
  have shift: "(Suc j < count_of s r - 1) = (Suc (Suc j) < count_of s r)" for j
    by auto
  have "map (\<lambda>j. if Suc j < count_of s' r then E_IPC_RECV_MORE else E_IPC_SUCCESS) [0 ..< k] =
      map (\<lambda>j. if Suc (Suc j) < count_of s r then E_IPC_RECV_MORE else E_IPC_SUCCESS) [0 ..< k]"
    unfolding c' shift ..
  with rets have rets': "map fst tr =
      map (\<lambda>j. if Suc (Suc j) < count_of s r then E_IPC_RECV_MORE else E_IPC_SUCCESS) [0 ..< k]"
    by (simp add: returned_def)
  show ?case
    unfolding idx using res run' rets' first
    by (simp add: returned_def comp_def)
qed

lemma hello_drain_two:
  "map_sum id returned (run 1 [Receive, Receive] hello_A_B_state zero_msg) =
     Inr [E_IPC_RECV_MORE, E_IPC_RECV_MORE]"
  "map_sum id buffers (run 1 [Receive, Receive] hello_A_B_state zero_msg) =
     Inr [stored zero_msg E_IPC_MSG_TYPE_1 hello 13, stored zero_msg E_IPC_MSG_TYPE_2 [65] 1]"
proof -
  have two: "replicate 2 Receive = [Receive, Receive]" by (simp add: numeral_2_eq_2)
  have k: "2 \<le> count_of hello_A_B_state 1" by (simp add: hello_A_B_count)
  from drain_returned [OF hello_A_B_facts(2,3) k, of zero_msg]
  show "map_sum id returned (run 1 [Receive, Receive] hello_A_B_state zero_msg) =
     Inr [E_IPC_RECV_MORE, E_IPC_RECV_MORE]"
    unfolding two by (auto simp: hello_A_B_count upt_rec_numeral numeral_2_eq_2)
  from drain [OF hello_A_B_facts(2,3) k, of zero_msg]
  show "map_sum id buffers (run 1 [Receive, Receive] hello_A_B_state zero_msg) =
     Inr [stored zero_msg E_IPC_MSG_TYPE_1 hello 13, stored zero_msg E_IPC_MSG_TYPE_2 [65] 1]"
    unfolding two by (auto simp: hello_A_B_pending numeral_2_eq_2)
qed

theorem IPC_send_receive_fifo_witness:
  "ipc_inv hello_state \<and>
   IPC_send wake_passes hello_state 1 E_IPC_MSG_TYPE_2 [65] 1 = Inr (E_IPC_SUCCESS, hello_A_state) \<and>
   IPC_send wake_passes hello_A_state 1 E_IPC_MSG_TYPE_2 [66] 1 = Inr (E_IPC_SUCCESS, hello_A_B_state) \<and>
   count_of hello_state 1 + 2 \<le> 16 \<and>
   (\<exists>tr. run 1 (replicate (count_of hello_state 1 + 2) Receive) hello_A_B_state zero_msg = Inr tr \<and>
      (\<forall>e \<in> set (returned tr). e = E_IPC_SUCCESS \<or> e = E_IPC_RECV_MORE) \<and>
      take (count_of hello_state 1) (buffers tr) = pending (inbox hello_state 1) \<and>
      carries (buffers tr ! count_of hello_state 1) E_IPC_MSG_TYPE_2 [65] 1 \<and>
      carries (buffers tr ! Suc (count_of hello_state 1)) E_IPC_MSG_TYPE_2 [66] 1)"
  using IPC_send_receive_fifo [of hello_state wake_passes 1 E_IPC_MSG_TYPE_2 "[65]" 1 hello_A_state
      wake_passes E_IPC_MSG_TYPE_2 "[66]" 1 hello_A_B_state zero_msg]
  by (simp add: hello_inv hello_A_facts(1) hello_A_B_facts(1) hello_count)

text \<open>
  Claim C4 as stated fails when the inbox already holds a message: with the greeting
  pending, sends of A and of B both succeed, and the next two receives, both successful,
  return the greeting and then A.
\<close>

theorem IPC_send_receive_fifo_counterexample:
  "IPC_send wake_passes hello_state 1 E_IPC_MSG_TYPE_2 [65] 1 = Inr (E_IPC_SUCCESS, hello_A_state) \<and>
   IPC_send wake_passes hello_A_state 1 E_IPC_MSG_TYPE_2 [66] 1 = Inr (E_IPC_SUCCESS, hello_A_B_state) \<and>
   map_sum id returned (run 1 [Receive, Receive] hello_A_B_state zero_msg) =
     Inr [E_IPC_RECV_MORE, E_IPC_RECV_MORE] \<and>
   map_sum id buffers (run 1 [Receive, Receive] hello_A_B_state zero_msg) =
     Inr [stored zero_msg E_IPC_MSG_TYPE_1 hello 13, stored zero_msg E_IPC_MSG_TYPE_2 [65] 1] \<and>
   \<not> carries (stored zero_msg E_IPC_MSG_TYPE_1 hello 13) E_IPC_MSG_TYPE_2 [65] 1 \<and>
   \<not> carries (stored zero_msg E_IPC_MSG_TYPE_2 [65] 1) E_IPC_MSG_TYPE_2 [66] 1"
proof -
  have a: "\<not> carries (stored zero_msg E_IPC_MSG_TYPE_1 hello 13) E_IPC_MSG_TYPE_2 [65] 1"
    by (simp add: carries_def stored_def)
  have b: "\<not> carries (stored zero_msg E_IPC_MSG_TYPE_2 [65] 1) E_IPC_MSG_TYPE_2 [66] 1"
    by (simp add: carries_def stored_def)
  show ?thesis
    using hello_A_facts(1) hello_A_B_facts(1) hello_drain_two a b by blast
qed

section \<open>Send to a full inbox\<close>

text \<open>
  Claim C1. The first 16 sends to an empty inbox succeed, and the 17th ought to fail and
  leave the queue alone. The code has no test for a full queue: a send to an inbox that
  holds 16 messages goes through like any other. It returns \<^verbatim>\<open>E_IPC_SUCCESS\<close> when the
  notification passes, raises the count to 17, and writes its message into the slot at
  the head, over the oldest message not yet received, which the next receive then returns
  in place of that oldest message.
\<close>

theorem IPC_send_full_inbox:
  assumes "ipc_inv s" and "registered s r" and "count_of s r = IPC_MSG_QUEUE_LENGTH"
    and "n < IPC_MAX_DATA_LENGTH" and "nat n \<le> length d"
  shows "\<exists>s'. IPC_send ntf s r t d n =
            Inr (if ntf (wake_handle s r) then E_IPC_SUCCESS else E_IPC_ERR_SEND_FAIL, s') \<and>
          count_of s' r = 17 \<and>
          queueHead (inbox s' r) = queueHead (inbox s r) \<and>
          msgQueue (inbox s' r) =
            (msgQueue (inbox s r))[unat (queueHead (inbox s r)) :=
               stored (msgQueue (inbox s r) ! unat (queueHead (inbox s r))) t d n] \<and>
          (\<exists>e s'' m. IPC_receive s' r buf = Inr (e, s'', m) \<and> carries m t d n)"
proof -
  from IPC_send_effect [OF assms(1,2,4,5), of ntf t]
  obtain s' where res: "IPC_send ntf s r t d n =
      Inr (if ntf (wake_handle s r) then E_IPC_SUCCESS else E_IPC_ERR_SEND_FAIL, s')"
    and inv': "ipc_inv s'" and idx': "IPC_getHandlerIdx s' r = IPC_getHandlerIdx s r"
    and q': "inbox s' r = enqueued (inbox s r) t d n"
    by blast
  let ?q = "inbox s r"
  from inbox_inv [OF assms(1,2)] have h: "unat (queueHead ?q) < 16"
    and rel: "unat (queueTail ?q) = (unat (queueHead ?q) + unat (queueSize ?q)) mod 16"
    and len: "length (msgQueue ?q) = 16"
    by (simp_all add: queue_inv_def queue_shape_def)
  from assms(3) have sz: "unat (queueSize ?q) = 16" by (simp add: count_of_def)
  from rel h have tl: "unat (queueTail ?q) = unat (queueHead ?q)" by (simp add: sz)
  have cnt: "count_of s' r = 17"
    using count_enqueued [of s r t d n] assms(3) by (simp add: count_of_def q')
  have slots: "msgQueue (inbox s' r) =
      (msgQueue ?q)[unat (queueHead ?q) := stored (msgQueue ?q ! unat (queueHead ?q)) t d n]"
    by (simp add: q' enqueued_fields tl)
  have reg': "registered s' r" using assms(2) by (simp add: registered_def idx')
  have ne: "queueSize (inbox s' r) \<noteq> 0"
    using cnt by (auto simp: count_of_def)
  from IPC_receive_effect [OF inv' reg' ne, of buf]
  obtain e s'' where rcv: "IPC_receive s' r buf =
      Inr (e, s'', msgQueue (inbox s' r) ! unat (queueHead (inbox s' r)))"
    by blast
  have "msgQueue (inbox s' r) ! unat (queueHead (inbox s' r)) =
      stored (msgQueue ?q ! unat (queueHead ?q)) t d n"
    using h len by (simp add: slots) (simp add: q' enqueued_fields)
  then have "carries (msgQueue (inbox s' r) ! unat (queueHead (inbox s' r))) t d n"
    using carries_stored [OF assms(5)] by simp
  with res cnt slots rcv show ?thesis
    by (auto simp: q' enqueued_fields)
qed

theorem IPC_send_full_inbox_witness:
  "IPC_send wake_passes (hello_times 15) 1 E_IPC_MSG_TYPE_1 hello 13 =
     Inr (E_IPC_SUCCESS, hello_times 16) \<and>
   ipc_inv (hello_times 16) \<and> registered (hello_times 16) 1 \<and>
   count_of (hello_times 16) 1 = 16 \<and> (3 :: int) < 512 \<and> nat 3 \<le> length [110, 111, 0 :: 8 word] \<and>
   (\<exists>s'. IPC_send wake_passes (hello_times 16) 1 E_IPC_MSG_TYPE_2 [110, 111, 0] 3 =
            Inr (E_IPC_SUCCESS, s') \<and>
          count_of s' 1 = 17 \<and>
          queueHead (inbox s' 1) = queueHead (inbox (hello_times 16) 1) \<and>
          msgQueue (inbox s' 1) =
            (msgQueue (inbox (hello_times 16) 1))[unat (queueHead (inbox (hello_times 16) 1)) :=
               stored (msgQueue (inbox (hello_times 16) 1) ! unat (queueHead (inbox (hello_times 16) 1)))
                 E_IPC_MSG_TYPE_2 [110, 111, 0] 3] \<and>
          (\<exists>e s'' m. IPC_receive s' 1 zero_msg = Inr (e, s'', m) \<and>
             carries m E_IPC_MSG_TYPE_2 [110, 111, 0] 3))"
  using IPC_send_full_inbox [of "hello_times 16" 1 3 "[110, 111, 0]" wake_passes E_IPC_MSG_TYPE_2 zero_msg]
    hello_times_facts [of 16] hello_times_send [of 15]
  by (simp add: wake_passes_def)

section \<open>Registration\<close>

lemma lookup_loop_none_conv:
  "getHandlerIdx_loop s t i = -1 \<Longrightarrow>
   \<forall>k. i \<le> k \<and> k < unat (IPC_u8HandlerCnt s) \<longrightarrow> recvId (IPC_arHandler s ! k) \<noteq> t"
proof (induction s t i rule: getHandlerIdx_loop.induct)
  case (1 s taskID i)
  show ?case
  proof (cases "i < unat (IPC_u8HandlerCnt s)")
    case False
    then show ?thesis by simp
  next
    case True
    have neq: "recvId (IPC_arHandler s ! i) \<noteq> taskID"
    proof
      assume "recvId (IPC_arHandler s ! i) = taskID"
      with True have "getHandlerIdx_loop s taskID i = int i"
        by (subst getHandlerIdx_loop.simps) simp
      with 1(2) show False by simp
    qed
    with True 1(2) have "getHandlerIdx_loop s taskID (Suc i) = -1"
      by (subst (asm) getHandlerIdx_loop.simps) simp
    from 1(1) [OF True neq this]
    have ih: "\<forall>k. Suc i \<le> k \<and> k < unat (IPC_u8HandlerCnt s) \<longrightarrow>
        recvId (IPC_arHandler s ! k) \<noteq> taskID" .
    show ?thesis
    proof (intro allI impI)
      fix k
      assume k: "i \<le> k \<and> k < unat (IPC_u8HandlerCnt s)"
      show "recvId (IPC_arHandler s ! k) \<noteq> taskID"
      proof (cases "k = i")
        case True
        with neq show ?thesis by simp
      next
        case False
        with k have "Suc i \<le> k \<and> k < unat (IPC_u8HandlerCnt s)" by simp
        with ih show ?thesis by blast
      qed
    qed
  qed
qed

lemma lookup_none_conv:
  assumes "IPC_getHandlerIdx s t = -1" and "k < unat (IPC_u8HandlerCnt s)"
  shows "recvId (IPC_arHandler s ! k) \<noteq> t"
proof -
  from assms(2) have "0 < unat (IPC_u8HandlerCnt s)" by simp
  then have "0 < IPC_u8HandlerCnt s" by (simp add: word_less_nat_alt)
  with assms(1) have "getHandlerIdx_loop s t 0 = -1" by (simp add: IPC_getHandlerIdx_def)
  from lookup_loop_none_conv [OF this] assms(2) show ?thesis by simp
qed

lemma IPC_createHandler_success_cases:
  assumes "IPC_createHandler s t h = (E_IPC_SUCCESS, s1)"
  shows "h \<noteq> 0" and "unat (IPC_u8HandlerCnt s) \<noteq> 255" and "IPC_getHandlerIdx s t = -1"
  using assms by (auto simp: IPC_createHandler_def Let_def split: if_splits)

lemma IPC_createHandler_registers:
  assumes inv: "ipc_inv s" and res: "IPC_createHandler s t h = (E_IPC_SUCCESS, s1)"
  shows "IPC_getHandlerIdx s1 t = int (unat (IPC_u8HandlerCnt s))"
    and "unat (IPC_u8HandlerCnt s1) = Suc (unat (IPC_u8HandlerCnt s))"
proof -
  note c = IPC_createHandler_success_cases [OF res]
  let ?n = "unat (IPC_u8HandlerCnt s)"
  from c(2) cnt_le [of "IPC_u8HandlerCnt s"] have n: "?n < 255" by simp
  with inv have len: "?n < length (IPC_arHandler s)" by (simp add: ipc_inv_def)
  from res IPC_createHandler_ok [OF c]
  have s1: "s1 = s\<lparr>IPC_arHandler := (IPC_arHandler s)[?n :=
          (IPC_arHandler s ! ?n)
          \<lparr>recvId := t, handle := h,
           queue := (queue (IPC_arHandler s ! ?n))
                     \<lparr>queueSize := 0, queueTail := 0, queueHead := 0\<rparr>\<rparr>],
       IPC_u8HandlerCnt := IPC_u8HandlerCnt s + 1\<rparr>"
    by simp
  show cnt1: "unat (IPC_u8HandlerCnt s1) = Suc ?n"
    by (simp add: s1 cnt_succ [OF c(2)])
  have here: "recvId (IPC_arHandler s1 ! ?n) = t"
    using len by (simp add: s1)
  have before: "\<forall>j < ?n. recvId (IPC_arHandler s1 ! j) \<noteq> t"
    using lookup_none_conv [OF c(3)] by (simp add: s1)
  show "IPC_getHandlerIdx s1 t = int ?n"
    using cnt1 here before by (intro lookup_first) simp_all
qed

text \<open>
  Claim C9, as the code has it. After a registration that succeeded, a second one for the
  same task identifier with any handle other than \<^verbatim>\<open>NULL\<close> is rejected and leaves the state
  as it is. It returns \<^verbatim>\<open>E_IPC_ERR_EXISTS\<close>, unless the first registration took the last of
  the 255 entries of the table: the test for a full table comes first, and the call then
  returns \<^verbatim>\<open>E_IPC_ERR_CREATE_FAIL\<close>.
\<close>

theorem IPC_createHandler_twice:
  assumes "ipc_inv s" and "IPC_createHandler s t h = (E_IPC_SUCCESS, s1)" and "h' \<noteq> NULL"
  shows "IPC_createHandler s1 t h' =
           (if unat (IPC_u8HandlerCnt s1) = IPC_HANDLER_CNT_MAX
            then E_IPC_ERR_CREATE_FAIL else E_IPC_ERR_EXISTS, s1)"
proof -
  have "(0 :: int) \<le> int (unat (IPC_u8HandlerCnt s))" by (rule of_nat_0_le_iff)
  then have "IPC_getHandlerIdx s1 t \<noteq> -1"
    unfolding IPC_createHandler_registers(1) [OF assms(1,2)] by linarith
  with assms(3) show ?thesis
    by (simp add: IPC_createHandler_def)
qed

lemma boot_cnt: "IPC_u8HandlerCnt boot_state = 0"
  by (simp add: boot_state_def IPC_initIPCHandler_def)

lemma register_upto_ids:
  "n \<le> 255 \<Longrightarrow>
   unat (IPC_u8HandlerCnt (register_upto n)) = n \<and>
   (\<forall>k < n. recvId (IPC_arHandler (register_upto n) ! k) = int (Suc k))"
proof (induction n)
  case 0
  show ?case by (simp add: register_upto.simps boot_cnt)
next
  case (Suc n)
  let ?s = "register_upto n"
  from Suc have cnt: "unat (IPC_u8HandlerCnt ?s) = n"
    and ids: "\<forall>k < n. recvId (IPC_arHandler ?s ! k) = int (Suc k)"
    by simp_all
  have inv: "ipc_inv ?s" by (rule ipc_inv_register_upto)
  from Suc.prems have n: "n < 255" by simp
  with inv have len: "n < length (IPC_arHandler ?s)" by (simp add: ipc_inv_def)
  have none: "IPC_getHandlerIdx ?s (int (Suc n)) = -1"
    by (rule lookup_none) (use ids cnt in auto)
  have c: "unat (IPC_u8HandlerCnt ?s) \<noteq> 255" using cnt n by simp
  have s1: "register_upto (Suc n) =
      ?s\<lparr>IPC_arHandler := (IPC_arHandler ?s)[n :=
          (IPC_arHandler ?s ! n)
          \<lparr>recvId := int (Suc n), handle := Suc 0,
           queue := (queue (IPC_arHandler ?s ! n))
                     \<lparr>queueSize := 0, queueTail := 0, queueHead := 0\<rparr>\<rparr>],
       IPC_u8HandlerCnt := IPC_u8HandlerCnt ?s + 1\<rparr>"
    using IPC_createHandler_ok [OF _ c none, of "Suc 0"]
    by (simp add: register_upto.simps cnt)
  have "unat (IPC_u8HandlerCnt (register_upto (Suc n))) = Suc n"
    by (simp add: s1 cnt_succ [OF c] cnt)
  moreover have "recvId (IPC_arHandler (register_upto (Suc n)) ! k) = int (Suc k)"
    if "k < Suc n" for k
    using that ids len by (cases "k = n") (simp_all add: s1)
  ultimately show ?case by blast
qed

lemma register_upto_step:
  assumes "n < 255"
  shows "IPC_createHandler (register_upto n) (int (Suc n)) (Suc 0) =
           (E_IPC_SUCCESS, register_upto (Suc n))"
proof -
  from register_upto_ids [of n] assms
  have cnt: "unat (IPC_u8HandlerCnt (register_upto n)) = n"
    and ids: "\<forall>k < n. recvId (IPC_arHandler (register_upto n) ! k) = int (Suc k)"
    by simp_all
  have none: "IPC_getHandlerIdx (register_upto n) (int (Suc n)) = -1"
    by (rule lookup_none) (use ids cnt in auto)
  have c: "unat (IPC_u8HandlerCnt (register_upto n)) \<noteq> 255" using cnt assms by simp
  from IPC_createHandler_ok [OF _ c none, of "Suc 0"]
  have "fst (IPC_createHandler (register_upto n) (int (Suc n)) (Suc 0)) = E_IPC_SUCCESS"
    by simp
  then show ?thesis
    by (simp add: register_upto.simps prod_eq_iff)
qed

theorem IPC_createHandler_twice_witness:
  "ipc_inv boot_state \<and>
   IPC_createHandler boot_state 1 (Suc 0) = (E_IPC_SUCCESS, register_upto 1) \<and> Suc 0 \<noteq> NULL \<and>
   IPC_createHandler (register_upto 1) 1 (Suc 0) = (E_IPC_ERR_EXISTS, register_upto 1)"
  using IPC_createHandler_twice [of boot_state 1 "Suc 0" "register_upto 1" "Suc 0"]
    register_upto_step [of 0] register_upto_ids [of 1]
  by (simp add: ipc_inv_boot register_upto.simps(1))

text \<open>
  Claim C9 as stated fails when the first registration fills the table: with tasks 1 to
  254 registered, task 255 registers with success, and its second registration returns
  \<^verbatim>\<open>E_IPC_ERR_CREATE_FAIL\<close>, not \<^verbatim>\<open>E_IPC_ERR_EXISTS\<close>.
\<close>

theorem IPC_createHandler_twice_counterexample:
  "IPC_createHandler (register_upto 254) 255 (Suc 0) = (E_IPC_SUCCESS, register_upto 255) \<and>
   IPC_createHandler (register_upto 255) 255 (Suc 0) = (E_IPC_ERR_CREATE_FAIL, register_upto 255)"
proof -
  have a: "IPC_createHandler (register_upto 254) 255 (Suc 0) = (E_IPC_SUCCESS, register_upto 255)"
    using register_upto_step [of 254] by simp
  have "unat (IPC_u8HandlerCnt (register_upto 255)) = 255"
    using register_upto_ids [of 255] by simp
  then have "IPC_createHandler (register_upto 255) 255 (Suc 0) = (E_IPC_ERR_CREATE_FAIL, register_upto 255)"
    by (simp add: IPC_createHandler_def)
  with a show ?thesis by simp
qed

section \<open>Sequences of calls and the count\<close>

lemma call_on_step:
  assumes inv: "ipc_inv s" and reg: "registered s r" and rd: "readable c"
    and room: "stores c \<longrightarrow> count_of s r < 16"
  shows "\<exists>e s' b'. call_on r c s buf = Inr (e, s', b') \<and> ipc_inv s' \<and> registered s' r \<and>
           count_of s' r =
             (if stores c then Suc (count_of s r)
              else if c = Receive then count_of s r - 1 else count_of s r) \<and>
           int (count_of s' r) = int (count_of s r) + delta c e \<and>
           (e = E_IPC_SUCCESS \<or> e = E_IPC_RECV_MORE \<longrightarrow> delta c e \<noteq> 0)"
proof (cases c)
  case (Send ntf t d n)
  show ?thesis
  proof (cases "n < 512")
    case False
    then have "IPC_send ntf s r t d n = Inr (E_IPC_ERR_SEND_FAIL, s)"
      by (simp add: IPC_send_too_large)
    with False inv reg show ?thesis by (simp add: Send)
  next
    case True
    with rd have d: "nat n \<le> length d" by (simp add: Send)
    note step = after_send_eq [OF inv reg True d, of ntf t]
    from room True have "count_of s r < 255" by (simp add: Send)
    from count_enqueued [OF this, of t d n]
    have "count_of (after_send ntf s r t d n) r = Suc (count_of s r)"
      by (simp add: count_of_def step(5))
    with step(1,2,3) True show ?thesis by (simp add: Send)
  qed
next
  case Receive
  show ?thesis
  proof (cases "queueSize (inbox s r) = 0")
    case True
    then have z: "count_of s r = 0" by (simp add: count_of_def)
    have idx: "IPC_getHandlerIdx s r = int (nat (IPC_getHandlerIdx s r))"
      using reg by (rule registered_idx)
    from True have "queueSize (queue (IPC_arHandler s ! nat (IPC_getHandlerIdx s r))) = 0"
      by (simp add: inbox_def)
    from IPC_receive_empty [OF idx this, of buf] inv reg z show ?thesis
      by (simp add: Receive)
  next
    case False
    from IPC_receive_effect [OF inv reg False, of buf]
    obtain s' where res: "IPC_receive s r buf =
        Inr (if 0 < queueSize (inbox s r) - 1 then E_IPC_RECV_MORE else E_IPC_SUCCESS, s',
             msgQueue (inbox s r) ! unat (queueHead (inbox s r)))"
      and inv': "ipc_inv s'" and idx': "IPC_getHandlerIdx s' r = IPC_getHandlerIdx s r"
      and q': "inbox s' r = dequeued (inbox s r)"
      by blast
    have reg': "registered s' r" using reg by (simp add: registered_def idx')
    from False have pos: "0 < count_of s r" by (simp add: count_of_def unat_gt_0)
    have c': "count_of s' r = count_of s r - 1"
      using unat_minus_one [OF False] by (simp add: count_of_def q' dequeued_fields)
    from res inv' reg' c' pos show ?thesis
      by (auto simp: Receive)
  qed
qed

lemma never_overfilled_Cons:
  assumes "never_overfilled k (c # cs)"
  shows "stores c \<longrightarrow> k < 16"
    and "never_overfilled (if stores c then Suc k else if c = Receive then k - 1 else k) cs"
  using assms by (cases c; simp split: if_splits)+

lemma final_state_Cons [simp]: "final_state s ((e, s', b') # tr) = final_state s' tr"
  by (simp add: final_state_def)

lemma counts_Cons [simp]: "counts r s ((e, s', b') # tr) = count_of s r # counts r s' tr"
  by (simp add: counts_def)

lemma counts_Nil [simp]: "counts r s [] = [count_of s r]"
  by (simp add: counts_def)

lemma tally_Cons:
  "int (sends_stored (c # cs)) - int (receives_done (c # cs) (e # es)) =
     delta c e + (int (sends_stored cs) - int (receives_done cs es))"
  by (cases c) (simp_all add: sends_stored_def receives_done_def)

lemma run_counts:
  assumes "ipc_inv s" and "registered s r" and "\<forall>c \<in> set cs. readable c"
    and "never_overfilled (count_of s r) cs" and "count_of s r \<le> 16"
  shows "\<exists>tr. run r cs s buf = Inr tr \<and> length tr = length cs \<and>
           int (count_of (final_state s tr) r) =
             int (count_of s r) + (int (sends_stored cs) - int (receives_done cs (returned tr))) \<and>
           (\<forall>c \<in> set (counts r s tr). c \<le> 16) \<and>
           (\<forall>j < length cs. int (counts r s tr ! Suc j) =
              int (counts r s tr ! j) + delta (cs ! j) (returned tr ! j)) \<and>
           (\<forall>j < length cs. returned tr ! j = E_IPC_SUCCESS \<or> returned tr ! j = E_IPC_RECV_MORE \<longrightarrow>
              delta (cs ! j) (returned tr ! j) \<noteq> 0)"
  using assms
proof (induction cs arbitrary: s buf)
  case Nil
  then show ?case
    by (simp add: sends_stored_def receives_done_def returned_def final_state_def)
next
  case (Cons c cs)
  note no = never_overfilled_Cons [OF Cons.prems(4)]
  from Cons.prems(3) have rd: "readable c" and rds: "\<forall>c \<in> set cs. readable c" by simp_all
  from call_on_step [OF Cons.prems(1,2) rd no(1), of buf]
  obtain e s' b' where res: "call_on r c s buf = Inr (e, s', b')"
    and inv': "ipc_inv s'" and reg': "registered s' r"
    and c': "count_of s' r =
      (if stores c then Suc (count_of s r) else if c = Receive then count_of s r - 1 else count_of s r)"
    and ic': "int (count_of s' r) = int (count_of s r) + delta c e"
    and ok: "e = E_IPC_SUCCESS \<or> e = E_IPC_RECV_MORE \<longrightarrow> delta c e \<noteq> 0"
    by blast
  have no': "never_overfilled (count_of s' r) cs" using no(2) by (simp only: c')
  have le': "count_of s' r \<le> 16" using no(1) Cons.prems(5) unfolding c' by auto
  from Cons.IH [OF inv' reg' rds no' le', of b']
  obtain tr where run': "run r cs s' b' = Inr tr" and len: "length tr = length cs"
    and fin: "int (count_of (final_state s' tr) r) =
        int (count_of s' r) + (int (sends_stored cs) - int (receives_done cs (returned tr)))"
    and bound: "\<forall>c \<in> set (counts r s' tr). c \<le> 16"
    and steps: "\<forall>j < length cs. int (counts r s' tr ! Suc j) =
        int (counts r s' tr ! j) + delta (cs ! j) (returned tr ! j)"
    and oks: "\<forall>j < length cs. returned tr ! j = E_IPC_SUCCESS \<or> returned tr ! j = E_IPC_RECV_MORE \<longrightarrow>
        delta (cs ! j) (returned tr ! j) \<noteq> 0"
    by blast
  let ?tr = "(e, s', b') # tr"
  have run: "run r (c # cs) s buf = Inr ?tr" by (simp add: res run')
  have ret: "returned ?tr = e # returned tr" by (simp add: returned_def)
  have hd': "counts r s' tr ! 0 = count_of s' r" by (cases tr) (simp_all add: counts_def)
  have a: "int (count_of (final_state s ?tr) r) =
      int (count_of s r) + (int (sends_stored (c # cs)) - int (receives_done (c # cs) (returned ?tr)))"
    unfolding ret tally_Cons using fin ic' by simp
  have b: "\<forall>x \<in> set (counts r s ?tr). x \<le> 16"
    using bound Cons.prems(5) by simp
  have st: "int (counts r s ?tr ! Suc j) = int (counts r s ?tr ! j) + delta ((c # cs) ! j) (returned ?tr ! j)"
    if "j < length (c # cs)" for j
  proof (cases j)
    case 0
    then show ?thesis using ic' hd' by (simp add: ret)
  next
    case (Suc i)
    with that have "i < length cs" by simp
    with steps show ?thesis by (simp add: Suc ret)
  qed
  have sk: "returned ?tr ! j = E_IPC_SUCCESS \<or> returned ?tr ! j = E_IPC_RECV_MORE \<longrightarrow>
      delta ((c # cs) ! j) (returned ?tr ! j) \<noteq> 0"
    if "j < length (c # cs)" for j
  proof (cases j)
    case 0
    then show ?thesis using ok by (simp add: ret)
  next
    case (Suc i)
    with that have "i < length cs" by simp
    with oks show ?thesis by (simp add: Suc ret)
  qed
  from run len a b st sk show ?case by (intro exI [of _ ?tr]) simp
qed


text \<open>
  Claim C3, as the code has it. Take any sequence of sends and receives on one registered
  inbox, starting with count 0, in which every send may read its buffer and no send is
  issued while the inbox holds 16 messages. Every call returns; the count at the end is
  the number of sends that stored a message (those that got past the size check, whether
  they return \<^verbatim>\<open>E_IPC_SUCCESS\<close> or, the notification having failed,
  \<^verbatim>\<open>E_IPC_ERR_SEND_FAIL\<close>) minus the number of receives that returned a message; the count
  is at most 16 before and after every call; and every call changes it by \<open>delta\<close>: by
  \<open>+1\<close> for a send that stored, by \<open>-1\<close> for a receive that returned a message, by 0
  otherwise. A call that returns \<^verbatim>\<open>E_IPC_SUCCESS\<close> or \<^verbatim>\<open>E_IPC_RECV_MORE\<close> never leaves the
  count as it was.
\<close>

theorem count_follows_calls:
  assumes "ipc_inv s" and "registered s r" and "count_of s r = 0"
    and "\<forall>c \<in> set cs. readable c" and "never_overfilled 0 cs"
  shows "\<exists>tr. run r cs s buf = Inr tr \<and> length tr = length cs \<and>
           int (count_of (final_state s tr) r) =
             int (sends_stored cs) - int (receives_done cs (returned tr)) \<and>
           (\<forall>c \<in> set (counts r s tr). c \<le> IPC_MSG_QUEUE_LENGTH) \<and>
           (\<forall>j < length cs. int (counts r s tr ! Suc j) =
              int (counts r s tr ! j) + delta (cs ! j) (returned tr ! j)) \<and>
           (\<forall>j < length cs. returned tr ! j = E_IPC_SUCCESS \<or> returned tr ! j = E_IPC_RECV_MORE \<longrightarrow>
              delta (cs ! j) (returned tr ! j) \<noteq> 0)"
  using run_counts [of s r cs buf] assms by simp

lemma task1_send_fails:
  "IPC_send wake_fails (register_upto (Suc 0)) 1 E_IPC_MSG_TYPE_1 hello 13 =
     Inr (E_IPC_ERR_SEND_FAIL, after_send wake_fails (register_upto (Suc 0)) 1 E_IPC_MSG_TYPE_1 hello 13)"
  "count_of (after_send wake_fails (register_upto (Suc 0)) 1 E_IPC_MSG_TYPE_1 hello 13) 1 = 1"
proof -
  have n: "(13 :: int) < 512" and d: "nat 13 \<le> length hello" by (simp_all add: hello_def)
  note step = after_send_eq [OF ipc_inv_register_upto task1_registered n d, of wake_fails E_IPC_MSG_TYPE_1]
  show "IPC_send wake_fails (register_upto (Suc 0)) 1 E_IPC_MSG_TYPE_1 hello 13 =
     Inr (E_IPC_ERR_SEND_FAIL, after_send wake_fails (register_upto (Suc 0)) 1 E_IPC_MSG_TYPE_1 hello 13)"
    using step(1) by (simp add: wake_fails_def)
  show "count_of (after_send wake_fails (register_upto (Suc 0)) 1 E_IPC_MSG_TYPE_1 hello 13) 1 = 1"
    by (simp add: count_of_def step(5) task1_inbox enqueued_fields zero_queue_def)
qed

theorem count_follows_calls_witness:
  "ipc_inv (register_upto 1) \<and> registered (register_upto 1) 1 \<and> count_of (register_upto 1) 1 = 0 \<and>
   list_all readable [Send wake_fails E_IPC_MSG_TYPE_1 hello 13, Receive, Receive] \<and>
   never_overfilled 0 [Send wake_fails E_IPC_MSG_TYPE_1 hello 13, Receive, Receive] \<and>
   (\<exists>tr. run 1 [Send wake_fails E_IPC_MSG_TYPE_1 hello 13, Receive, Receive] (register_upto 1) zero_msg
            = Inr tr \<and>
      length tr = length [Send wake_fails E_IPC_MSG_TYPE_1 hello 13, Receive, Receive] \<and>
      int (count_of (final_state (register_upto 1) tr) 1) =
        int (sends_stored [Send wake_fails E_IPC_MSG_TYPE_1 hello 13, Receive, Receive]) -
        int (receives_done [Send wake_fails E_IPC_MSG_TYPE_1 hello 13, Receive, Receive] (returned tr)) \<and>
      (\<forall>c \<in> set (counts 1 (register_upto 1) tr). c \<le> 16))"
proof -
  let ?cs = "[Send wake_fails E_IPC_MSG_TYPE_1 hello 13, Receive, Receive]"
  have h1: "ipc_inv (register_upto 1)" by (rule ipc_inv_register_upto)
  have h2: "registered (register_upto 1) 1" by (simp add: task1_registered)
  have h3: "count_of (register_upto 1) 1 = 0" by (simp add: task1_count)
  have h4: "\<forall>c \<in> set ?cs. readable c" by (simp add: hello_def)
  have h5: "never_overfilled 0 ?cs" by simp
  have h4': "list_all readable ?cs" by (simp add: hello_def)
  from count_follows_calls [OF h1 h2 h3 h4 h5, of zero_msg]
  obtain tr where "run 1 ?cs (register_upto 1) zero_msg = Inr tr"
    and "length tr = length ?cs"
    and "int (count_of (final_state (register_upto 1) tr) 1) =
        int (sends_stored ?cs) - int (receives_done ?cs (returned tr))"
    and "\<forall>c \<in> set (counts 1 (register_upto 1) tr). c \<le> 16"
    by blast
  with h1 h2 h3 h4' h5 show ?thesis by blast
qed

text \<open>
  Claim C3 as stated fails for a send whose notification fails: on the empty inbox of
  task 1 such a send returns \<^verbatim>\<open>E_IPC_ERR_SEND_FAIL\<close>, so the sequence holds no successful
  send and no successful receive, and yet the count afterwards is 1.
\<close>

theorem count_follows_calls_counterexample:
  "count_of (register_upto 1) 1 = 0 \<and>
   map_sum id returned
     (run 1 [Send wake_fails E_IPC_MSG_TYPE_1 hello 13] (register_upto 1) zero_msg) =
     Inr [E_IPC_ERR_SEND_FAIL] \<and>
   map_sum id (counts 1 (register_upto 1))
     (run 1 [Send wake_fails E_IPC_MSG_TYPE_1 hello 13] (register_upto 1) zero_msg) =
     Inr [0, 1]"
  by (simp add: task1_count task1_send_fails returned_def)

end
